theory Spec2Isabelle
  imports Complex_Main "HOL-Library.AList" "HOL-Library.Sublist" "HOL-Library.Multiset"
begin

section \<open>Data model\<close>

text \<open>
  The correction workflow of \<^verbatim>\<open>pyrate/correct.py\<close> and the per-pixel minimum spanning
  tree reducer exercised by \<^verbatim>\<open>pyrate/tests/mst_tests.py\<close>.  Python names that start
  with an underscore lose it (\<^verbatim>\<open>_create_ifg_dict\<close> is \<open>create_ifg_dict\<close>,
  \<^verbatim>\<open>__validate_correct_steps\<close> is \<open>validate_correct_steps\<close>).
\<close>

type_synonym filepath = string

text \<open>An epoch is a calendar acquisition date, kept as its day ordinal.\<close>

type_synonym epoch = nat

type_synonym edge = "epoch \<times> epoch"

type_synonym metadata = "(string \<times> string) list"

type_synonym geotransform = "real list"

text \<open>\<^verbatim>\<open>MultiplePaths\<close>: the three paths of an interferogram file that correct.py reads.\<close>

record multiple_paths =
  sampled_path :: filepath
  tmp_sampled_path :: filepath
  converted_path :: filepath

text \<open>
  An interferogram as opened by \<^verbatim>\<open>shared._prep_ifg\<close> and as handed to the MST reducer.
  A phase value that is not finite (NaN) is \<open>None\<close>.
\<close>

record ifg =
  first :: epoch
  second :: epoch
  nrows :: nat
  ncols :: nat
  phase_data :: "nat \<Rightarrow> nat \<Rightarrow> real option"
  nan_fraction :: real
  time_span :: real
  meta_data :: metadata

text \<open>\<^verbatim>\<open>PrereadIfg\<close>: the picklable summary of one interferogram.\<close>

record preread_ifg =
  pre_path :: filepath
  pre_tmp_path :: filepath
  pre_nan_fraction :: real
  pre_first :: epoch
  pre_second :: epoch
  pre_time_span :: real
  pre_nrows :: nat
  pre_ncols :: nat
  pre_metadata :: metadata

text \<open>
  The values of \<^verbatim>\<open>ifgs_dict\<close>: one \<^verbatim>\<open>PrereadIfg\<close> per working path and, while the
  dictionary is being pickled, the four derived entries.  A Python dictionary is an
  association list with distinct keys in insertion order: \<^verbatim>\<open>d[k] = v\<close> is
  \<^const>\<open>AList.update\<close>, two dictionaries are equal when their \<^const>\<open>map_of\<close> agree.
\<close>

datatype dict_value =
    PrereadIfg preread_ifg
  | EpochList "epoch list"
  | Gt geotransform
  | Md metadata
  | Wkt string

type_synonym ifgs_dict = "(string \<times> dict_value) list"

type_synonym tile = "nat \<times> nat \<times> nat \<times> nat"

text \<open>
  Every exception correct.py raises or lets through.  \<open>ConfigException\<close> carries the
  offending step name (the source formats it into the message), \<open>SystemExit\<close> the
  message given to \<^verbatim>\<open>sys.exit\<close>, \<open>CollaboratorError\<close> whatever an external
  collaborator raised, \<open>MergeConflict\<close> the key on which two partial dictionaries disagree,
  \<open>FileNotFoundError\<close> the path that \<^verbatim>\<open>open\<close> could not create.
\<close>

datatype error =
    ConfigException string
  | SystemExit string
  | IndexError
  | KeyError string
  | MergeConflict string
  | CollaboratorError string
  | FileNotFoundError string

text \<open>
  The configuration dictionary \<^verbatim>\<open>params\<close> (which is \<^verbatim>\<open>config.__dict__\<close>): the keys
  correct.py reads or writes.  A key that is set later is \<open>None\<close> until then.
\<close>

record params =
  correct :: "string list"
  interferogram_files :: "multiple_paths list"
  phase_closure :: bool
  tmpdir :: filepath
  rows :: nat
  cols :: nat
  tiles :: "tile list option"
  preread_ifgs :: "ifgs_dict option"
  refx_found :: "int option"
  refy_found :: "int option"

text \<open>
  What a collaborator can see and change: the configuration, the raster files, and the
  files and directories correct.py itself writes.
\<close>

record state =
  params :: params
  rasters :: "filepath \<Rightarrow> ifg option"
  pickles :: "filepath \<Rightarrow> ifgs_dict option"
  text_files :: "filepath \<Rightarrow> string list option"
  directories :: "filepath list"

text \<open>
  The calls made to collaborators, in order.  The log is kept beside the state, so a
  collaborator can neither read nor rewrite it.
\<close>

datatype call =
    GetTiles filepath
  | PrepIfg filepath
  | GeotiffHeaderInfo filepath
  | GetEpochs
  | RefPixelCalc
  | FilterToClosureChecked
  | DetectPixWithUnwrappingErrors
  | Step string

type_synonym world = "state \<times> call list"

type_synonym 'a result = "(error + 'a) \<times> world"

text \<open>
  The collaborators of correct.py, none of which is part of it: data providers read the
  state, correction steps may change it, all may raise.  \<open>mpi_size\<close> is the number of
  MPI workers.
\<close>

record env =
  mpi_size :: nat
  get_tiles :: "filepath \<Rightarrow> nat \<Rightarrow> nat \<Rightarrow> state \<Rightarrow> error + tile list"
  prep_ifg :: "filepath \<Rightarrow> state \<Rightarrow> error + ifg"
  get_geotiff_header_info :: "filepath \<Rightarrow> state \<Rightarrow> error + geotransform \<times> metadata \<times> string"
  get_epochs :: "ifgs_dict \<Rightarrow> error + epoch list"
  preread_ifgs_file :: "params \<Rightarrow> filepath"
  phase_closure_filtered_ifgs_list :: "params \<Rightarrow> filepath"
  ref_pixel_calc_wrapper :: "state \<Rightarrow> (error + int \<times> int) \<times> state"
  filter_to_closure_checked_ifgs ::
    "state \<Rightarrow> (error + filepath list option \<times> int list \<times> int list) \<times> state"
  detect_pix_with_unwrapping_errors :: "int list \<Rightarrow> int list \<Rightarrow> state \<Rightarrow> (error + unit) \<times> state"
  orb_fit_calc_wrapper :: "state \<Rightarrow> (error + unit) \<times> state"
  ref_phase_est_wrapper :: "state \<Rightarrow> (error + unit) \<times> state"
  dem_error_calc_wrapper :: "state \<Rightarrow> (error + unit) \<times> state"
  mst_calc_wrapper :: "state \<Rightarrow> (error + unit) \<times> state"
  wrap_spatio_temporal_filter :: "state \<Rightarrow> (error + unit) \<times> state"
  maxvar_vcm_calc_wrapper :: "state \<Rightarrow> (error + unit) \<times> state"

section \<open>Sequencing with exceptions\<close>

definition return :: "'a \<Rightarrow> world \<Rightarrow> 'a result" where
  "return a w = (Inr a, w)"

definition raise :: "error \<Rightarrow> world \<Rightarrow> 'a result" where
  "raise err w = (Inl err, w)"

definition bind :: "(world \<Rightarrow> 'a result) \<Rightarrow> ('a \<Rightarrow> world \<Rightarrow> 'b result) \<Rightarrow> world \<Rightarrow> 'b result" where
  "bind m f w = (case m w of (Inl err, w') \<Rightarrow> (Inl err, w') | (Inr a, w') \<Rightarrow> f a w')"

text \<open>A call of a data provider: logged, the state untouched.\<close>

definition reader :: "call \<Rightarrow> (state \<Rightarrow> error + 'a) \<Rightarrow> world \<Rightarrow> 'a result" where
  "reader c f w = (f (fst w), (fst w, snd w @ [c]))"

text \<open>A call of a collaborator that may change the state: logged, the new state kept.\<close>

definition ext :: "call \<Rightarrow> (state \<Rightarrow> (error + 'a) \<times> state) \<Rightarrow> world \<Rightarrow> 'a result" where
  "ext c f w = (case f (fst w) of (r, s') \<Rightarrow> (r, (s', snd w @ [c])))"

text \<open>A step of the registry: the loop of \<open>correct_ifgs\<close> logs it, the call itself does not.\<close>

definition black_box :: "(state \<Rightarrow> (error + 'a) \<times> state) \<Rightarrow> world \<Rightarrow> unit result" where
  "black_box f w = (case f (fst w) of (Inl err, s') \<Rightarrow> (Inl err, (s', snd w)) | (Inr _, s') \<Rightarrow> (Inr (), (s', snd w)))"

definition record_call :: "call \<Rightarrow> world \<Rightarrow> world" where
  "record_call c w = (fst w, snd w @ [c])"

definition modify :: "(state \<Rightarrow> state) \<Rightarrow> world \<Rightarrow> unit result" where
  "modify g w = (Inr (), (g (fst w), snd w))"

text \<open>
  The exit status of the interpreter for the outcome of a run: an uncaught exception,
  \<^verbatim>\<open>SystemExit\<close> with a message included, ends the process with status 1.
\<close>

fun exit_status :: "error + 'a \<Rightarrow> nat" where
  "exit_status (Inl err) = 1"
| "exit_status (Inr a) = 0"

section \<open>The correction workflow (correct.py)\<close>

subsection \<open>Partitioning and merging the metadata\<close>

text \<open>
  Modelled from the spec: \<^verbatim>\<open>mpiops.array_split\<close> is not among the source files.  The
  spec has it cut the list into disjoint contiguous slices in order, one per worker:
  worker \<open>rank\<close> receives a slice of fixed length, the final worker the remainder.
\<close>

definition array_split :: "nat \<Rightarrow> nat \<Rightarrow> 'a list \<Rightarrow> 'a list" where
  "array_split n rank xs =
     (let chunk = length xs div n
      in if rank + 1 < n then take chunk (drop (rank * chunk) xs)
         else drop (rank * chunk) xs)"

text \<open>
  Modelled from the spec: \<^verbatim>\<open>shared.join_dicts\<close> is not among the source files.  The
  spec has it take the union of the partial dictionaries and fail when a key occurs twice
  with conflicting values.
\<close>

fun join_pair :: "ifgs_dict \<Rightarrow> ifgs_dict \<Rightarrow> error + ifgs_dict" where
  "join_pair acc [] = Inr acc"
| "join_pair acc ((k, v) # kvs) =
     (case map_of acc k of
        None \<Rightarrow> join_pair (AList.update k v acc) kvs
      | Some v' \<Rightarrow> if v' = v then join_pair acc kvs else Inl (MergeConflict k))"

text \<open>
  Modelled from the spec: the fold of \<^verbatim>\<open>shared.join_dicts\<close> over the gathered
  dictionaries, in the order \<^verbatim>\<open>allgather\<close> returns them.
\<close>

fun join_onto :: "ifgs_dict \<Rightarrow> ifgs_dict list \<Rightarrow> error + ifgs_dict" where
  "join_onto acc [] = Inr acc"
| "join_onto acc (d # ds) =
     (case join_pair acc d of Inl err \<Rightarrow> Inl err | Inr acc' \<Rightarrow> join_onto acc' ds)"

text \<open>Modelled from the spec: \<^verbatim>\<open>shared.join_dicts\<close> itself, starting from the empty dictionary.\<close>

definition join_dicts :: "ifgs_dict list \<Rightarrow> error + ifgs_dict" where
  "join_dicts ds = join_onto [] ds"

text \<open>The \<^verbatim>\<open>PrereadIfg(...)\<close> built at lines 62-72 from a path record and the opened interferogram.\<close>

definition make_preread :: "multiple_paths \<Rightarrow> ifg \<Rightarrow> preread_ifg" where
  "make_preread d i =
     \<lparr>pre_path = sampled_path d, pre_tmp_path = tmp_sampled_path d,
      pre_nan_fraction = nan_fraction i, pre_first = first i, pre_second = second i,
      pre_time_span = time_span i, pre_nrows = nrows i, pre_ncols = ncols i,
      pre_metadata = meta_data i\<rparr>"

text \<open>Lines 60-73: the loop of one worker over its partition \<^verbatim>\<open>process_tifs\<close>.\<close>

fun prep_partition :: "env \<Rightarrow> multiple_paths list \<Rightarrow> ifgs_dict \<Rightarrow> world \<Rightarrow> ifgs_dict result" where
  "prep_partition e [] ifgs_dict w = (Inr ifgs_dict, w)"
| "prep_partition e (d # ds) ifgs_dict w =
     (case reader (PrepIfg (sampled_path d)) (prep_ifg e (sampled_path d)) w of
        (Inl err, w') \<Rightarrow> (Inl err, w')
      | (Inr i, w') \<Rightarrow>
          prep_partition e ds
            (AList.update (tmp_sampled_path d) (PrereadIfg (make_preread d i)) ifgs_dict) w')"

text \<open>
  \<^verbatim>\<open>mpiops.comm.allgather\<close>: every worker runs the loop on its partition, and each
  receives the list of all partial dictionaries in rank order.  A worker that raises
  aborts the collective operation.
\<close>

fun gather_partitions :: "env \<Rightarrow> multiple_paths list list \<Rightarrow> world \<Rightarrow> ifgs_dict list result" where
  "gather_partitions e [] w = (Inr [], w)"
| "gather_partitions e (p # ps) w =
     (case prep_partition e p [] w of
        (Inl err, w') \<Rightarrow> (Inl err, w')
      | (Inr d, w') \<Rightarrow>
          (case gather_partitions e ps w' of
             (Inl err, w'') \<Rightarrow> (Inl err, w'')
           | (Inr ds, w'') \<Rightarrow> (Inr (d # ds), w'')))"

text \<open>Lines 59-74 for an explicit list of partitions: the loops, then the merge.\<close>

definition merge_partitions :: "env \<Rightarrow> multiple_paths list list \<Rightarrow> world \<Rightarrow> ifgs_dict result" where
  "merge_partitions e parts w =
     (case gather_partitions e parts w of
        (Inl err, w') \<Rightarrow> (Inl err, w')
      | (Inr ds, w') \<Rightarrow>
          (case join_dicts ds of Inl err \<Rightarrow> (Inl err, w') | Inr d \<Rightarrow> (Inr d, w')))"

definition partitions :: "nat \<Rightarrow> 'a list \<Rightarrow> 'a list list" where
  "partitions n xs = map (\<lambda>rank. array_split n rank xs) [0..<n]"

text \<open>Lines 57-74: the partitions are those of \<open>array_split\<close> for the workers of the run.\<close>

definition gather_ifgs_dict :: "env \<Rightarrow> world \<Rightarrow> ifgs_dict result" where
  "gather_ifgs_dict e w =
     merge_partitions e (partitions (mpi_size e) (interferogram_files (params (fst w)))) w"

subsection \<open>Saving the dictionary with headers and epochs\<close>

text \<open>\<^verbatim>\<open>dict.pop(k)\<close> with no default: a missing key raises.\<close>

definition pop :: "string \<Rightarrow> ifgs_dict \<Rightarrow> error + ifgs_dict" where
  "pop k d = (if k \<in> fst ` set d then Inr (AList.delete k d) else Inl (KeyError k))"

fun pop_keys :: "string list \<Rightarrow> ifgs_dict \<Rightarrow> error + ifgs_dict" where
  "pop_keys [] d = Inr d"
| "pop_keys (k # ks) d = (case pop k d of Inl err \<Rightarrow> Inl err | Inr d' \<Rightarrow> pop_keys ks d')"

definition derived_keys :: "string list" where
  "derived_keys = [''gt'', ''epochlist'', ''md'', ''wkt'']"

text \<open>Lines 84-86: the temporary directory is created when it does not exist.\<close>

definition ensure_tmpdir :: "state \<Rightarrow> state" where
  "ensure_tmpdir s =
     (if tmpdir (params s) \<in> set (directories s) then s
      else s\<lparr>directories := directories s @ [tmpdir (params s)]\<rparr>)"

text \<open>Lines 94-97: the four derived entries, in the order the source sets them.\<close>

definition with_headers :: "ifgs_dict \<Rightarrow> epoch list \<Rightarrow> geotransform \<Rightarrow> metadata \<Rightarrow> string \<Rightarrow> ifgs_dict" where
  "with_headers ifgs_dict epochlist gt md wkt =
     AList.update ''wkt'' (Wkt wkt)
       (AList.update ''md'' (Md md)
          (AList.update ''gt'' (Gt gt)
             (AList.update ''epochlist'' (EpochList epochlist) ifgs_dict)))"

text \<open>
  Lines 83-104, \<^verbatim>\<open>__save_ifgs_dict_with_headers_and_epochs\<close>.  \<^verbatim>\<open>process_tifs[0]\<close>
  raises on an empty partition.  \<^verbatim>\<open>cp.dump\<close> stores the dictionary as it stands then.
\<close>

definition save_ifgs_dict_with_headers_and_epochs ::
  "env \<Rightarrow> multiple_paths list \<Rightarrow> ifgs_dict \<Rightarrow> multiple_paths list \<Rightarrow> world \<Rightarrow> ifgs_dict result" where
  "save_ifgs_dict_with_headers_and_epochs e dest_tifs ifgs_dict process_tifs =
     bind (modify ensure_tmpdir) (\<lambda>_.
       case process_tifs of
         [] \<Rightarrow> raise IndexError
       | p0 # _ \<Rightarrow>
           bind (reader (GeotiffHeaderInfo (tmp_sampled_path p0))
                   (get_geotiff_header_info e (tmp_sampled_path p0))) (\<lambda>(gt, md, wkt).
           bind (reader GetEpochs (\<lambda>_. get_epochs e ifgs_dict)) (\<lambda>epochlist.
           bind (modify (\<lambda>s. s\<lparr>pickles := (pickles s)
                   (preread_ifgs_file e (params s) \<mapsto> with_headers ifgs_dict epochlist gt md wkt)\<rparr>)) (\<lambda>_.
           case pop_keys derived_keys (with_headers ifgs_dict epochlist gt md wkt) of
             Inl err \<Rightarrow> raise err
           | Inr d \<Rightarrow> return d))))"

text \<open>
  Lines 43-80, \<^verbatim>\<open>_create_ifg_dict\<close>.  \<^verbatim>\<open>mpiops.run_once\<close> runs the save on worker 0,
  whose partition is \<open>array_split n 0\<close>, and hands its result to every worker.
\<close>

definition create_ifg_dict :: "env \<Rightarrow> world \<Rightarrow> ifgs_dict result" where
  "create_ifg_dict e w =
     (let dest_tifs = interferogram_files (params (fst w))
      in bind (gather_ifgs_dict e) (\<lambda>ifgs_dict.
         bind (save_ifgs_dict_with_headers_and_epochs e dest_tifs ifgs_dict
                 (array_split (mpi_size e) 0 dest_tifs)) (\<lambda>ifgs_dict'.
         bind (modify (\<lambda>s. s\<lparr>params := (params s)\<lparr>preread_ifgs := Some ifgs_dict'\<rparr>\<rparr>)) (\<lambda>_.
         return ifgs_dict'))) w)"

subsection \<open>Tiles\<close>

text \<open>Lines 138-143, \<^verbatim>\<open>_update_params_with_tiles\<close>; index 0 of an empty list raises.\<close>

definition update_params_with_tiles :: "env \<Rightarrow> world \<Rightarrow> unit result" where
  "update_params_with_tiles e w =
     (case interferogram_files (params (fst w)) of
        [] \<Rightarrow> raise IndexError w
      | m # _ \<Rightarrow>
          bind (reader (GetTiles (sampled_path m))
                  (get_tiles e (sampled_path m) (rows (params (fst w))) (cols (params (fst w))))) (\<lambda>ts.
          modify (\<lambda>s. s\<lparr>params := (params s)\<lparr>tiles := Some ts\<rparr>\<rparr>)) w)"

subsection \<open>The phase closure step\<close>

text \<open>Lines 157-162: the loop of \<^verbatim>\<open>_filter_to_closure_checked_multiple_paths\<close>.\<close>

fun filter_loop :: "filepath list \<Rightarrow> multiple_paths list \<Rightarrow> multiple_paths list \<Rightarrow> multiple_paths list" where
  "filter_loop ifg_files [] filtered_multi_paths = filtered_multi_paths"
| "filter_loop ifg_files (m_p # rest) filtered_multi_paths =
     (if tmp_sampled_path m_p \<in> set ifg_files
      then filter_loop ifg_files rest (filtered_multi_paths @ [m_p])
      else filter_loop ifg_files rest filtered_multi_paths)"

definition filter_to_closure_checked_multiple_paths ::
  "filepath list \<Rightarrow> multiple_paths list \<Rightarrow> multiple_paths list" where
  "filter_to_closure_checked_multiple_paths ifg_files multi_paths = filter_loop ifg_files multi_paths []"

definition zero_loops_message :: string where
  "zero_loops_message =
     ''Zero loops are returned after phase clouser calcs!!! '' @ [CHR 0x0A] @
     ''Check your phase closure configuration!''"

text \<open>The directory part of a path, as \<^verbatim>\<open>os.path.dirname\<close> gives it; empty for a bare file name.\<close>

definition dirname :: "filepath \<Rightarrow> filepath" where
  "dirname p = rev (drop 1 (dropWhile (\<lambda>c. c \<noteq> CHR ''/'') (rev p)))"

text \<open>
  Lines 167-170: the list of retained files, one converted path per line.
  \<^verbatim>\<open>open(path, 'w')\<close> raises when the directory of the path does not exist.
\<close>

definition write_filtered_list :: "env \<Rightarrow> world \<Rightarrow> unit result" where
  "write_filtered_list e w =
     (let f = phase_closure_filtered_ifgs_list e (params (fst w))
      in if dirname f = [] \<or> dirname f \<in> set (directories (fst w))
         then modify (\<lambda>s. s\<lparr>text_files := (text_files s)
                (f \<mapsto> map (\<lambda>p. converted_path p @ [CHR 0x0A]) (interferogram_files (params s)))\<rparr>) w
         else raise (FileNotFoundError f) w)"

text \<open>
  Lines 146-178, \<^verbatim>\<open>update_params_with_closure_checked_ifg_list\<close>.  It returns
  \<^verbatim>\<open>None\<close> when phase closure is switched off and \<^verbatim>\<open>params\<close> at the end.
\<close>

definition update_params_with_closure_checked_ifg_list :: "env \<Rightarrow> world \<Rightarrow> params option result" where
  "update_params_with_closure_checked_ifg_list e w =
     (if \<not> phase_closure (params (fst w)) then return None w
      else
        bind (ext FilterToClosureChecked (filter_to_closure_checked_ifgs e))
          (\<lambda>(ifg_files, ifgs_breach_count, num_occurences_each_ifg).
             case ifg_files of
               None \<Rightarrow> raise (SystemExit zero_loops_message)
             | Some files \<Rightarrow>
                 bind (modify (\<lambda>s. s\<lparr>params := (params s)\<lparr>interferogram_files :=
                         filter_to_closure_checked_multiple_paths files
                           (interferogram_files (params s))\<rparr>\<rparr>)) (\<lambda>_.
                 bind (write_filtered_list e) (\<lambda>_.
                 bind (ext DetectPixWithUnwrappingErrors
                         (detect_pix_with_unwrapping_errors e ifgs_breach_count
                            num_occurences_each_ifg)) (\<lambda>_.
                 bind (create_ifg_dict e) (\<lambda>_.
                 (\<lambda>w'. return (Some (params (fst w'))) w')))))) w)"

subsection \<open>The registry and the orchestrator\<close>

definition discard :: "(world \<Rightarrow> 'a result) \<Rightarrow> world \<Rightarrow> unit result" where
  "discard m = bind m (\<lambda>_. return ())"

text \<open>Lines 181-189, \<^verbatim>\<open>correct_steps\<close>, in the order the source declares it.\<close>

definition correct_steps :: "env \<Rightarrow> (string \<times> (world \<Rightarrow> unit result)) list" where
  "correct_steps e =
     [(''orbfit'', black_box (orb_fit_calc_wrapper e)),
      (''refphase'', black_box (ref_phase_est_wrapper e)),
      (''phase_closure'', discard (update_params_with_closure_checked_ifg_list e)),
      (''demerror'', black_box (dem_error_calc_wrapper e)),
      (''mst'', black_box (mst_calc_wrapper e)),
      (''apscorrect'', black_box (wrap_spatio_temporal_filter e)),
      (''maxvar'', black_box (maxvar_vcm_calc_wrapper e))]"

definition step_names :: "string list" where
  "step_names = [''orbfit'', ''refphase'', ''phase_closure'', ''demerror'', ''mst'', ''apscorrect'', ''maxvar'']"

text \<open>Lines 213-217, \<^verbatim>\<open>__validate_correct_steps\<close>: the first unsupported name raises.\<close>

fun validate_loop :: "env \<Rightarrow> string list \<Rightarrow> error + unit" where
  "validate_loop e [] = Inr ()"
| "validate_loop e (step # rest) =
     (if step \<notin> set (map fst (correct_steps e)) then Inl (ConfigException step)
      else validate_loop e rest)"

definition validate_correct_steps :: "env \<Rightarrow> world \<Rightarrow> unit result" where
  "validate_correct_steps e w = (validate_loop e (correct (params (fst w))), w)"

text \<open>
  Lines 205-209: the loop over \<^verbatim>\<open>params['correct']\<close>.  \<^verbatim>\<open>correct_steps[step]\<close> raises
  \<^verbatim>\<open>KeyError\<close> on a name that is not registered.  The iterated list is the one read when
  the loop starts, which is what Python's iteration over the list object gives as long
  as no step changes that list (see \<open>keeps_step_list\<close>).  The source passes \<^verbatim>\<open>config\<close> as well to the phase closure step;
  \<^verbatim>\<open>params\<close> is its dictionary, so here both are the one state.
\<close>

fun run_steps :: "env \<Rightarrow> string list \<Rightarrow> world \<Rightarrow> unit result" where
  "run_steps e [] w = (Inr (), w)"
| "run_steps e (step # rest) w =
     (case map_of (correct_steps e) step of
        None \<Rightarrow> (Inl (KeyError step), w)
      | Some f \<Rightarrow>
          (case f (record_call (Step step) w) of
             (Inl err, w') \<Rightarrow> (Inl err, w')
           | (Inr _, w') \<Rightarrow> run_steps e rest w'))"

text \<open>Lines 199-202, the house keeping of \<^verbatim>\<open>correct_ifgs\<close>.\<close>

definition house_keeping :: "env \<Rightarrow> world \<Rightarrow> unit result" where
  "house_keeping e =
     bind (update_params_with_tiles e) (\<lambda>_.
     bind (create_ifg_dict e) (\<lambda>_.
     bind (ext RefPixelCalc (ref_pixel_calc_wrapper e)) (\<lambda>(refx, refy).
     modify (\<lambda>s. s\<lparr>params := (params s)\<lparr>refx_found := Some refx, refy_found := Some refy\<rparr>\<rparr>))))"

text \<open>Lines 192-210, \<^verbatim>\<open>correct_ifgs\<close>: validation, house keeping, then the steps.\<close>

definition correct_ifgs :: "env \<Rightarrow> world \<Rightarrow> unit result" where
  "correct_ifgs e =
     bind (validate_correct_steps e) (\<lambda>_.
     bind (house_keeping e) (\<lambda>_.
     (\<lambda>w. run_steps e (correct (params (fst w))) w)))"

text \<open>The names of the steps among the logged calls, in order.\<close>

fun step_calls :: "call list \<Rightarrow> string list" where
  "step_calls [] = []"
| "step_calls (Step n # cs) = n # step_calls cs"
| "step_calls (c # cs) = step_calls cs"

text \<open>The steps logged so far and the step list of the configuration.\<close>

definition logged_steps :: "world \<Rightarrow> string list" where
  "logged_steps w = step_calls (snd w)"

definition declared_steps :: "world \<Rightarrow> string list" where
  "declared_steps w = correct (params (fst w))"

definition view :: "world \<Rightarrow> string list \<times> string list" where
  "view w = (declared_steps w, logged_steps w)"

text \<open>A piece of the workflow that leaves an observation of the world as it is.\<close>

definition stable :: "(world \<Rightarrow> 'o) \<Rightarrow> (world \<Rightarrow> 'a result) \<Rightarrow> bool" where
  "stable obs m = (\<forall>w. obs (snd (m w)) = obs w)"

subsection \<open>The declared order, in the spec's words\<close>

text \<open>
  Section 4.2 of the spec: the orchestrator iterates the user-declared step order and
  invokes, for each name, the collaborator the registry maps it to, on the shared state
  the previous step left, and stops at the first step that raises.  The definitions below
  say this directly in terms of the collaborators, for comparison with the loop of
  \<open>correct_ifgs\<close>.
\<close>

definition external :: "env \<Rightarrow> string \<Rightarrow> state \<Rightarrow> (error + unit) \<times> state" where
  "external e n =
     (if n = ''orbfit'' then orb_fit_calc_wrapper e
      else if n = ''refphase'' then ref_phase_est_wrapper e
      else if n = ''demerror'' then dem_error_calc_wrapper e
      else if n = ''mst'' then mst_calc_wrapper e
      else if n = ''apscorrect'' then wrap_spatio_temporal_filter e
      else maxvar_vcm_calc_wrapper e)"

definition invoke :: "env \<Rightarrow> string \<Rightarrow> world \<Rightarrow> unit result" where
  "invoke e n w =
     (if n = ''phase_closure''
      then (case update_params_with_closure_checked_ifg_list e (fst w, snd w @ [Step n]) of
              (Inl err, w') \<Rightarrow> (Inl err, w')
            | (Inr _, w') \<Rightarrow> (Inr (), w'))
      else (case external e n (fst w) of
              (Inl err, s') \<Rightarrow> (Inl err, (s', snd w @ [Step n]))
            | (Inr _, s') \<Rightarrow> (Inr (), (s', snd w @ [Step n]))))"

fun in_declared_order :: "env \<Rightarrow> string list \<Rightarrow> world \<Rightarrow> unit result" where
  "in_declared_order e [] w = (Inr (), w)"
| "in_declared_order e (n # ns) w =
     (case invoke e n w of
        (Inl err, w') \<Rightarrow> (Inl err, w')
      | (Inr _, w') \<Rightarrow> in_declared_order e ns w')"

text \<open>
  No collaborator that may change the state changes \<^verbatim>\<open>params['correct']\<close>.  Python's
  \<^verbatim>\<open>for\<close> iterates the list object itself, so a step that changed that list in place
  would change which steps run next; for collaborators that leave the list alone,
  iterating the list read at the start of the loop is what the source does.
\<close>

definition keeps_step_list :: "env \<Rightarrow> bool" where
  "keeps_step_list e =
     (\<forall>s. correct (params (snd (ref_pixel_calc_wrapper e s))) = correct (params s) \<and>
          correct (params (snd (filter_to_closure_checked_ifgs e s))) = correct (params s) \<and>
          (\<forall>b c. correct (params (snd (detect_pix_with_unwrapping_errors e b c s))) = correct (params s)) \<and>
          correct (params (snd (orb_fit_calc_wrapper e s))) = correct (params s) \<and>
          correct (params (snd (ref_phase_est_wrapper e s))) = correct (params s) \<and>
          correct (params (snd (dem_error_calc_wrapper e s))) = correct (params s) \<and>
          correct (params (snd (mst_calc_wrapper e s))) = correct (params s) \<and>
          correct (params (snd (wrap_spatio_temporal_filter e s))) = correct (params s) \<and>
          correct (params (snd (maxvar_vcm_calc_wrapper e s))) = correct (params s))"

subsection \<open>Stub collaborators and a small configuration\<close>

definition stub_ifg :: "epoch \<Rightarrow> epoch \<Rightarrow> real option \<Rightarrow> ifg" where
  "stub_ifg a b v =
     \<lparr>first = a, second = b, nrows = 1, ncols = 1, phase_data = (\<lambda>y x. v),
      nan_fraction = 0, time_span = 1, meta_data = []\<rparr>"

definition stub_paths :: "string \<Rightarrow> multiple_paths" where
  "stub_paths n = \<lparr>sampled_path = ''s/'' @ n, tmp_sampled_path = ''t/'' @ n, converted_path = ''c/'' @ n\<rparr>"

text \<open>
  Stubs that succeed and change nothing; the closure check of \<open>stub_env\<close> retains the
  given files, or reports zero loops when given \<open>None\<close>.
\<close>

definition stub_env :: "nat \<Rightarrow> filepath list option \<Rightarrow> env" where
  "stub_env n retained =
     \<lparr>mpi_size = n,
      get_tiles = (\<lambda>p r c s. Inr [(0, r, 0, c)]),
      prep_ifg = (\<lambda>p s. case rasters s p of None \<Rightarrow> Inl (CollaboratorError p) | Some i \<Rightarrow> Inr i),
      get_geotiff_header_info = (\<lambda>p s. Inr ([0, 1], [], ''wgs84'')),
      get_epochs = (\<lambda>d. Inr [1, 2, 3]),
      preread_ifgs_file = (\<lambda>p. tmpdir p @ ''/preread_ifgs.pk''),
      phase_closure_filtered_ifgs_list = (\<lambda>p. tmpdir p @ ''/ifgs.txt''),
      ref_pixel_calc_wrapper = (\<lambda>s. (Inr (0, 0), s)),
      filter_to_closure_checked_ifgs = (\<lambda>s. (Inr (retained, [], []), s)),
      detect_pix_with_unwrapping_errors = (\<lambda>b c s. (Inr (), s)),
      orb_fit_calc_wrapper = (\<lambda>s. (Inr (), s)),
      ref_phase_est_wrapper = (\<lambda>s. (Inr (), s)),
      dem_error_calc_wrapper = (\<lambda>s. (Inr (), s)),
      mst_calc_wrapper = (\<lambda>s. (Inr (), s)),
      wrap_spatio_temporal_filter = (\<lambda>s. (Inr (), s)),
      maxvar_vcm_calc_wrapper = (\<lambda>s. (Inr (), s))\<rparr>"

definition stub_state :: "string list \<Rightarrow> bool \<Rightarrow> state" where
  "stub_state steps closure =
     \<lparr>params =
        \<lparr>correct = steps, interferogram_files = [stub_paths ''a'', stub_paths ''b''],
         phase_closure = closure, tmpdir = ''tmp'', rows = 1, cols = 1, tiles = None,
         preread_ifgs = None, refx_found = None, refy_found = None\<rparr>,
      rasters = (\<lambda>p. if p = ''s/a'' then Some (stub_ifg 1 2 (Some 0))
                     else if p = ''s/b'' then Some (stub_ifg 2 3 (Some 0)) else None),
      pickles = (\<lambda>p. None), text_files = (\<lambda>p. None), directories = []\<rparr>"

text \<open>A stub step that records its own name in a call log file and does nothing else.\<close>

definition note_call :: "string \<Rightarrow> state \<Rightarrow> (error + unit) \<times> state" where
  "note_call n s =
     (Inr (), s\<lparr>text_files := (text_files s)
        (''calls.log'' \<mapsto> (case text_files s ''calls.log'' of None \<Rightarrow> [] | Some l \<Rightarrow> l) @ [n])\<rparr>)"

definition recording_env :: env where
  "recording_env =
     (stub_env 1 None)
       \<lparr>orb_fit_calc_wrapper := note_call ''orbfit'',
        ref_phase_est_wrapper := note_call ''refphase'',
        dem_error_calc_wrapper := note_call ''demerror'',
        mst_calc_wrapper := note_call ''mst'',
        wrap_spatio_temporal_filter := note_call ''apscorrect'',
        maxvar_vcm_calc_wrapper := note_call ''maxvar''\<rparr>"

section \<open>The per-pixel minimum spanning tree reducer\<close>

text \<open>
  \<^verbatim>\<open>pyrate/mst.py\<close> is not among the source files; only its tests are.  Its functions
  are modelled from section 4.4 of the spec: the graph of a pixel has the epochs as nodes
  and the coherent interferograms as edges of uniform weight, and the tree is chosen by
  connectivity alone, the interferograms taken in stack order and the earliest-listed
  edge preferred.
\<close>

text \<open>
  Modelled from the spec: the state of the tree construction of \<^verbatim>\<open>pyrate.mst\<close>, the
  component representative of every epoch and the edges kept so far.
\<close>

type_synonym mst_state = "(epoch \<Rightarrow> epoch) \<times> edge list"

text \<open>
  Modelled from the spec: one interferogram of the stack is taken up by the tree of
  \<^verbatim>\<open>pyrate.mst\<close> when its two epochs are not connected yet, and then joins their
  components; otherwise it is redundant and dropped.
\<close>

definition add_edge :: "mst_state \<Rightarrow> edge \<Rightarrow> mst_state" where
  "add_edge s e =
     (let rep = fst s; tree = snd s; a = fst e; b = snd e
      in if rep a = rep b then s
         else ((\<lambda>x. if rep x = rep b then rep a else rep x), tree @ [e]))"

text \<open>Modelled from the spec: the pass of \<^verbatim>\<open>pyrate.mst\<close> over the edges in stack order.\<close>

fun mst_loop :: "mst_state \<Rightarrow> edge list \<Rightarrow> mst_state" where
  "mst_loop s [] = s"
| "mst_loop s (e # es) = mst_loop (add_edge s e) es"

text \<open>Modelled from the spec: \<^verbatim>\<open>pyrate.mst\<close> starts with every epoch a component of its own and no edge.\<close>

definition mst_init :: mst_state where
  "mst_init = (\<lambda>x. x, [])"

text \<open>
  Modelled from the spec: the spanning tree of \<^verbatim>\<open>pyrate.mst\<close> over a list of edges; on
  a graph that is not connected it is a maximal forest.
\<close>

definition mst_tree :: "edge list \<Rightarrow> edge list" where
  "mst_tree es = snd (mst_loop mst_init es)"

text \<open>Modelled from the spec: the edge an interferogram contributes, its (first, second) epoch pair.\<close>

definition edge_of :: "ifg \<Rightarrow> edge" where
  "edge_of i = (first i, second i)"

text \<open>
  Modelled from the spec: the interferograms \<^verbatim>\<open>mst_matrix\<close> keeps at a pixel, those
  whose phase value there is finite.
\<close>

definition coherent :: "ifg list \<Rightarrow> nat \<Rightarrow> nat \<Rightarrow> ifg list" where
  "coherent ifgs y x = filter (\<lambda>i. phase_data i y x \<noteq> None) ifgs"

text \<open>
  Modelled from the spec: what \<^verbatim>\<open>mst_matrix\<close> holds at a pixel, the missing-value marker
  or the reduced edge set.
\<close>

datatype mst_result = Missing | Tree "edge list"

text \<open>
  Modelled from the spec: the result of \<^verbatim>\<open>mst_matrix\<close> at one pixel.  With zero
  coherent interferograms it is the missing-value marker (sections 3 and 4.4 of the
  spec), otherwise the tree over the coherent interferograms.  For a single coherent
  interferogram sections 4.4 and 7 of the spec name the marker as well, but the test
  \<^verbatim>\<open>test_partial_nan_pixel_stack\<close> (mst_tests.py, lines 62-66) asserts a result of
  length 1 there; the model follows the test, so one coherent interferogram gives the
  tree of its own edge.
\<close>

definition mst_pixel :: "ifg list \<Rightarrow> nat \<Rightarrow> nat \<Rightarrow> mst_result" where
  "mst_pixel ifgs y x =
     (let c = coherent ifgs y x
      in if c = [] then Missing else Tree (mst_tree (map edge_of c)))"

text \<open>
  Modelled from the spec: \<^verbatim>\<open>mst_matrix(interferograms, epoch_list)\<close>, one result per pixel
  of the common raster extent, which is read off the first interferogram of the stack (as
  the test \<^verbatim>\<open>test_all_nan_pixel_stack\<close> does).  The spec does not say what an empty stack
  gives; here it is the matrix with no rows.
\<close>

definition mst_matrix :: "ifg list \<Rightarrow> epoch list \<Rightarrow> mst_result list list" where
  "mst_matrix ifgs epochs =
     (case ifgs of
        [] \<Rightarrow> []
      | i # _ \<Rightarrow> map (\<lambda>y. map (\<lambda>x. mst_pixel ifgs y x) [0..<ncols i]) [0..<nrows i])"

text \<open>
  Modelled from the spec: \<^verbatim>\<open>default_mst(interferograms)\<close>, the same tree construction run
  once on the whole stack, whatever is missing at any pixel.
\<close>

definition default_mst :: "ifg list \<Rightarrow> edge list" where
  "default_mst ifgs = mst_tree (map edge_of ifgs)"

subsection \<open>Graph notions the statements use\<close>

definition nodes :: "edge list \<Rightarrow> epoch set" where
  "nodes es = fst ` set es \<union> snd ` set es"

definition links :: "edge list \<Rightarrow> (epoch \<times> epoch) set" where
  "links es = set es \<union> (set es)\<inverse>"

text \<open>A network is connected when any two of its epochs are joined by a chain of its interferograms.\<close>

definition connected_network :: "edge list \<Rightarrow> bool" where
  "connected_network es = (\<forall>a \<in> nodes es. \<forall>b \<in> nodes es. (a, b) \<in> (links es)\<^sup>*)"

text \<open>
  A list of edges is a forest when none of them joins two epochs that the others connect
  already: no edge lies on a cycle, none is a loop and none is listed twice.
\<close>

definition forest :: "edge list \<Rightarrow> bool" where
  "forest t = (\<forall>xs e ys. t = xs @ e # ys \<longrightarrow> (fst e, snd e) \<notin> (links (xs @ ys))\<^sup>*)"

text \<open>A list of edges spans a network when it connects exactly the epochs the network connects.\<close>

definition spans :: "edge list \<Rightarrow> edge list \<Rightarrow> bool" where
  "spans t es = ((links t)\<^sup>* = (links es)\<^sup>*)"

subsection \<open>The canonical metadata mapping\<close>

text \<open>
  The entry of one interferogram in the metadata mapping, keyed by its working path, and
  the mapping of a whole list, in list order.  They are read where every interferogram of
  the list can be opened.
\<close>

definition entry :: "env \<Rightarrow> state \<Rightarrow> multiple_paths \<Rightarrow> string \<times> dict_value" where
  "entry e s d = (tmp_sampled_path d, PrereadIfg (make_preread d (projr (prep_ifg e (sampled_path d) s))))"

definition canonical :: "env \<Rightarrow> state \<Rightarrow> multiple_paths list \<Rightarrow> ifgs_dict" where
  "canonical e s ds = map (entry e s) ds"

definition stub_dict :: ifgs_dict where
  "stub_dict = [(''t/a'', PrereadIfg (make_preread (stub_paths ''a'') (stub_ifg 1 2 (Some 0))))]"

section \<open>Properties of the tree construction\<close>

lemma mst_loop_snoc: "mst_loop s (es @ [e]) = add_edge (mst_loop s es) e"
  by (induction es arbitrary: s) auto

lemma add_edge_keep: "rep a = rep b \<Longrightarrow> add_edge (rep, tree) (a, b) = (rep, tree)"
  by (simp add: add_edge_def)

lemma add_edge_join:
  "rep a \<noteq> rep b \<Longrightarrow>
   add_edge (rep, tree) (a, b) = ((\<lambda>x. if rep x = rep b then rep a else rep x), tree @ [(a, b)])"
  by (simp add: add_edge_def)

lemma relabel_image:
  assumes "a \<in> V" "b \<in> V" "rep a \<noteq> rep b"
  shows "(\<lambda>x. if rep x = rep b then rep a else rep x) ` V = rep ` V - {rep b}"
proof
  show "(\<lambda>x. if rep x = rep b then rep a else rep x) ` V \<subseteq> rep ` V - {rep b}"
    using assms by auto
  show "rep ` V - {rep b} \<subseteq> (\<lambda>x. if rep x = rep b then rep a else rep x) ` V"
  proof
    fix c assume "c \<in> rep ` V - {rep b}"
    then obtain x where x: "x \<in> V" "c = rep x" "rep x \<noteq> rep b" by auto
    then have "(\<lambda>x. if rep x = rep b then rep a else rep x) x = c" by simp
    then show "c \<in> (\<lambda>x. if rep x = rep b then rep a else rep x) ` V"
      using x(1) by blast
  qed
qed

lemma add_edge_count:
  assumes "finite V" "a \<in> V" "b \<in> V"
  shows "card (fst (add_edge (rep, tree) (a, b)) ` V) + length (snd (add_edge (rep, tree) (a, b)))
         = card (rep ` V) + length tree"
proof (cases "rep a = rep b")
  case True
  then show ?thesis by (simp only: add_edge_keep fst_conv snd_conv)
next
  case False
  have "rep b \<in> rep ` V" using assms(3) by (rule imageI)
  moreover have "finite (rep ` V)" using assms(1) by (rule finite_imageI)
  ultimately have c: "card (rep ` V - {rep b}) + 1 = card (rep ` V)"
    using card.remove [of "rep ` V" "rep b"] by simp
  note j = add_edge_join [of rep a b tree, OF False]
  have "fst (add_edge (rep, tree) (a, b)) ` V = rep ` V - {rep b}"
    by (simp only: j fst_conv relabel_image [of a V b rep, OF assms(2,3) False])
  moreover have "length (snd (add_edge (rep, tree) (a, b))) = length tree + 1"
    by (simp only: j snd_conv) simp
  ultimately show ?thesis using c by simp
qed

lemma add_edge_links:
  assumes "\<forall>(u, v) \<in> set P. rep u = rep v"
  shows "\<forall>(u, v) \<in> set (P @ [(a, b)]). fst (add_edge (rep, tree) (a, b)) u = fst (add_edge (rep, tree) (a, b)) v"
proof (cases "rep a = rep b")
  case True
  then show ?thesis using assms by (auto simp: add_edge_keep)
next
  case False
  then show ?thesis using assms by (auto simp: add_edge_join)
qed

lemma links_snoc: "links (P @ [(a, b)]) = insert (a, b) (insert (b, a) (links P))"
  by (auto simp: links_def)

lemma sym_links: "sym (links P)"
  by (auto simp: links_def sym_def)

lemma links_rtrancl_sym: "(x, y) \<in> (links P)\<^sup>* \<Longrightarrow> (y, x) \<in> (links P)\<^sup>*"
  using sym_links sym_rtrancl by (metis symD)

lemma add_edge_sound:
  assumes "\<forall>x y. rep x = rep y \<longrightarrow> (x, y) \<in> (links P)\<^sup>*"
    and "fst (add_edge (rep, tree) (a, b)) x = fst (add_edge (rep, tree) (a, b)) y"
  shows "(x, y) \<in> (links (P @ [(a, b)]))\<^sup>*"
proof -
  have mono: "(u, v) \<in> (links P)\<^sup>* \<Longrightarrow> (u, v) \<in> (links (P @ [(a, b)]))\<^sup>*" for u v
    by (rule rtrancl_mono [THEN subsetD]) (auto simp: links_snoc)
  have old: "rep u = rep v \<Longrightarrow> (u, v) \<in> (links (P @ [(a, b)]))\<^sup>*" for u v
    using assms(1) mono by blast
  have ab: "(a, b) \<in> (links (P @ [(a, b)]))\<^sup>*" and ba: "(b, a) \<in> (links (P @ [(a, b)]))\<^sup>*"
    by (auto simp: links_snoc)
  show ?thesis
  proof (cases "rep a = rep b")
    case True
    then show ?thesis using assms(2) old by (simp add: add_edge_keep)
  next
    case False
    from assms(2) False
    have eq: "(if rep x = rep b then rep a else rep x) = (if rep y = rep b then rep a else rep y)"
      by (simp add: add_edge_join)
    consider "rep x = rep b" "rep y = rep b" | "rep x = rep b" "rep y = rep a"
      | "rep x = rep a" "rep y = rep b" | "rep x = rep y"
      using eq by (auto split: if_splits)
    then show ?thesis
    proof cases
      case 1
      then show ?thesis using old by simp
    next
      case 2
      have "(x, b) \<in> (links (P @ [(a, b)]))\<^sup>*" using 2 old by simp
      moreover have "(a, y) \<in> (links (P @ [(a, b)]))\<^sup>*" using 2 old by simp
      ultimately show ?thesis using ba by (meson rtrancl_trans)
    next
      case 3
      have "(x, a) \<in> (links (P @ [(a, b)]))\<^sup>*" using 3 old by simp
      moreover have "(b, y) \<in> (links (P @ [(a, b)]))\<^sup>*" using 3 old by simp
      ultimately show ?thesis using ab by (meson rtrancl_trans)
    next
      case 4
      then show ?thesis using old by simp
    qed
  qed
qed

lemma add_edge_nodes:
  assumes "\<And>u v. rep u = rep v \<Longrightarrow> u \<noteq> v \<Longrightarrow> u \<in> nodes tree \<and> v \<in> nodes tree"
    and "fst (add_edge (rep, tree) (a, b)) x = fst (add_edge (rep, tree) (a, b)) y" "x \<noteq> y"
  shows "x \<in> nodes (snd (add_edge (rep, tree) (a, b))) \<and> y \<in> nodes (snd (add_edge (rep, tree) (a, b)))"
proof (cases "rep a = rep b")
  case True
  then show ?thesis using assms by (simp add: add_edge_keep)
next
  case False
  have sub: "nodes (tree @ [(a, b)]) = insert a (insert b (nodes tree))"
    by (auto simp: nodes_def)
  have inb: "rep u = rep b \<Longrightarrow> u \<in> insert a (insert b (nodes tree))" for u
    using assms(1) by (cases "u = b") auto
  have ina: "rep u = rep a \<Longrightarrow> u \<in> insert a (insert b (nodes tree))" for u
    using assms(1) by (cases "u = a") auto
  from assms(2) False
  have eq: "(if rep x = rep b then rep a else rep x) = (if rep y = rep b then rep a else rep y)"
    by (simp add: add_edge_join)
  have "x \<in> insert a (insert b (nodes tree)) \<and> y \<in> insert a (insert b (nodes tree))"
  proof (cases "rep x = rep y")
    case True
    then show ?thesis using assms(1,3) by blast
  next
    case False
    then show ?thesis using eq ina inb by (auto split: if_splits)
  qed
  then show ?thesis using False by (simp add: add_edge_join sub)
qed


lemma add_edge_subset: "set (snd (add_edge (rep, tree) (a, b))) \<subseteq> insert (a, b) (set tree)"
  by (cases "rep a = rep b") (auto simp: add_edge_keep add_edge_join)

lemma nodes_snoc: "nodes (es @ [(a, b)]) = insert a (insert b (nodes es))"
  by (auto simp: nodes_def)

lemma mst_loop_count:
  assumes "finite V" "nodes es \<subseteq> V"
  shows "card (fst (mst_loop mst_init es) ` V) + length (snd (mst_loop mst_init es)) = card V"
  using assms(2)
proof (induction es rule: rev_induct)
  case Nil
  then show ?case by (simp add: mst_init_def)
next
  case (snoc e es)
  obtain a b where e: "e = (a, b)" by (cases e)
  obtain rep tree where s: "mst_loop mst_init es = (rep, tree)" by (cases "mst_loop mst_init es")
  from snoc.prems e have ab: "a \<in> V" "b \<in> V" and sub: "nodes es \<subseteq> V"
    by (auto simp: nodes_snoc)
  from snoc.IH [OF sub] s have "card (rep ` V) + length tree = card V" by simp
  then show ?case
    using add_edge_count [OF assms(1) ab, of rep tree] by (simp add: mst_loop_snoc s e)
qed

lemma mst_loop_links:
  "\<forall>(u, v) \<in> set es. fst (mst_loop mst_init es) u = fst (mst_loop mst_init es) v"
proof (induction es rule: rev_induct)
  case Nil
  then show ?case by (simp add: mst_init_def)
next
  case (snoc e es)
  obtain a b where e: "e = (a, b)" by (cases e)
  obtain rep tree where s: "mst_loop mst_init es = (rep, tree)" by (cases "mst_loop mst_init es")
  from snoc.IH s have "\<forall>(u, v) \<in> set es. rep u = rep v" by simp
  from add_edge_links [OF this, of a b tree] show ?case
    by (simp only: mst_loop_snoc s e)
qed

lemma mst_loop_sound:
  "fst (mst_loop mst_init es) x = fst (mst_loop mst_init es) y \<Longrightarrow> (x, y) \<in> (links es)\<^sup>*"
proof (induction es arbitrary: x y rule: rev_induct)
  case Nil
  then show ?case by (simp add: mst_init_def)
next
  case (snoc e es)
  obtain a b where e: "e = (a, b)" by (cases e)
  obtain rep tree where s: "mst_loop mst_init es = (rep, tree)" by (cases "mst_loop mst_init es")
  from snoc.IH s have ih: "\<forall>x y. rep x = rep y \<longrightarrow> (x, y) \<in> (links es)\<^sup>*" by simp
  from snoc.prems have "fst (add_edge (rep, tree) (a, b)) x = fst (add_edge (rep, tree) (a, b)) y"
    by (simp only: mst_loop_snoc s e)
  from add_edge_sound [OF ih this] show ?case by (simp only: e)
qed

lemma mst_loop_nodes:
  "fst (mst_loop mst_init es) x = fst (mst_loop mst_init es) y \<Longrightarrow> x \<noteq> y \<Longrightarrow>
   x \<in> nodes (snd (mst_loop mst_init es)) \<and> y \<in> nodes (snd (mst_loop mst_init es))"
proof (induction es arbitrary: x y rule: rev_induct)
  case Nil
  then show ?case by (simp add: mst_init_def)
next
  case (snoc e es)
  obtain a b where e: "e = (a, b)" by (cases e)
  obtain rep tree where s: "mst_loop mst_init es = (rep, tree)" by (cases "mst_loop mst_init es")
  have ih: "u \<in> nodes tree \<and> v \<in> nodes tree" if "rep u = rep v" "u \<noteq> v" for u v
    using snoc.IH [of u v] that s by simp
  from snoc.prems(1) have eq: "fst (add_edge (rep, tree) (a, b)) x = fst (add_edge (rep, tree) (a, b)) y"
    by (simp only: mst_loop_snoc s e)
  have "x \<in> nodes (snd (add_edge (rep, tree) (a, b))) \<and> y \<in> nodes (snd (add_edge (rep, tree) (a, b)))"
  proof (rule add_edge_nodes)
    show "\<And>u v. rep u = rep v \<Longrightarrow> u \<noteq> v \<Longrightarrow> u \<in> nodes tree \<and> v \<in> nodes tree"
      by (rule ih)
    show "fst (add_edge (rep, tree) (a, b)) x = fst (add_edge (rep, tree) (a, b)) y" by (rule eq)
    show "x \<noteq> y" by (rule snoc.prems(2))
  qed
  then show ?case by (simp only: mst_loop_snoc s e)
qed

lemma mst_loop_subset: "set (snd (mst_loop mst_init es)) \<subseteq> set es"
proof (induction es rule: rev_induct)
  case Nil
  then show ?case by (simp add: mst_init_def)
next
  case (snoc e es)
  obtain a b where e: "e = (a, b)" by (cases e)
  obtain rep tree where s: "mst_loop mst_init es = (rep, tree)" by (cases "mst_loop mst_init es")
  from snoc.IH s have "set tree \<subseteq> set es" by simp
  then show ?case
    using add_edge_subset [of rep tree a b] by (auto simp: mst_loop_snoc s e)
qed

lemma links_rep:
  assumes "(x, y) \<in> (links es)\<^sup>*"
  shows "fst (mst_loop mst_init es) x = fst (mst_loop mst_init es) y"
  using assms
proof (induction rule: rtrancl_induct)
  case base
  show ?case by simp
next
  case (step y z)
  from step.hyps(2) have "fst (mst_loop mst_init es) y = fst (mst_loop mst_init es) z"
    using mst_loop_links [of es] by (auto simp: links_def)
  with step.IH show ?case by simp
qed

lemma finite_nodes: "finite (nodes es)"
  by (simp add: nodes_def)

lemma nodes_nonempty: "es \<noteq> [] \<Longrightarrow> nodes es \<noteq> {}"
  by (cases es) (auto simp: nodes_def)

lemma mst_tree_length:
  "length (mst_tree es) = card (nodes es) - card (fst (mst_loop mst_init es) ` nodes es)"
  using mst_loop_count [OF finite_nodes subset_refl, of es] by (simp add: mst_tree_def)

lemma mst_tree_connected_iff:
  assumes "es \<noteq> []"
  shows "length (mst_tree es) = card (nodes es) - 1 \<longleftrightarrow> connected_network es"
proof -
  let ?rep = "fst (mst_loop mst_init es)"
  let ?V = "nodes es"
  have fin: "finite ?V" by (rule finite_nodes)
  have ne: "?V \<noteq> {}" using assms by (rule nodes_nonempty)
  have pos: "0 < card (?rep ` ?V)" using fin ne by (simp add: card_gt_0_iff)
  have le: "card (?rep ` ?V) \<le> card ?V" using fin by (rule card_image_le)
  have sum: "card (?rep ` ?V) + length (mst_tree es) = card ?V"
    using mst_loop_count [OF fin subset_refl] by (simp add: mst_tree_def)
  have one: "length (mst_tree es) = card ?V - 1 \<longleftrightarrow> card (?rep ` ?V) = 1"
    using sum pos le by arith
  have "card (?rep ` ?V) = 1 \<longleftrightarrow> (\<forall>a \<in> ?V. \<forall>b \<in> ?V. ?rep a = ?rep b)"
  proof
    assume "card (?rep ` ?V) = 1"
    then obtain c where c: "?rep ` ?V = {c}" by (auto simp: card_1_singleton_iff)
    have "?rep a = c" if "a \<in> ?V" for a
    proof -
      from that have "?rep a \<in> ?rep ` ?V" by (rule imageI)
      with c show ?thesis by simp
    qed
    then show "\<forall>a \<in> ?V. \<forall>b \<in> ?V. ?rep a = ?rep b" by simp
  next
    assume eq: "\<forall>a \<in> ?V. \<forall>b \<in> ?V. ?rep a = ?rep b"
    from ne obtain a where a: "a \<in> ?V" by blast
    have "?rep ` ?V = {?rep a}"
    proof
      show "?rep ` ?V \<subseteq> {?rep a}" using eq a by blast
      show "{?rep a} \<subseteq> ?rep ` ?V" using a by blast
    qed
    then show "card (?rep ` ?V) = 1" by simp
  qed
  also have "\<dots> \<longleftrightarrow> connected_network es"
  proof
    assume eq: "\<forall>a \<in> ?V. \<forall>b \<in> ?V. ?rep a = ?rep b"
    show "connected_network es"
      unfolding connected_network_def
    proof (intro ballI)
      fix a b assume "a \<in> ?V" "b \<in> ?V"
      with eq have "?rep a = ?rep b" by blast
      then show "(a, b) \<in> (links es)\<^sup>*" by (rule mst_loop_sound)
    qed
  next
    assume cn: "connected_network es"
    show "\<forall>a \<in> ?V. \<forall>b \<in> ?V. ?rep a = ?rep b"
    proof (intro ballI)
      fix a b assume "a \<in> ?V" "b \<in> ?V"
      with cn have "(a, b) \<in> (links es)\<^sup>*" by (simp add: connected_network_def)
      then show "?rep a = ?rep b" by (rule links_rep)
    qed
  qed
  finally show ?thesis using one by simp
qed

lemma mst_tree_le: "length (mst_tree es) \<le> card (nodes es) - 1"
proof (cases "es = []")
  case True
  then show ?thesis by (simp add: mst_tree_def mst_init_def)
next
  case False
  have "0 < card (fst (mst_loop mst_init es) ` nodes es)"
    using finite_nodes nodes_nonempty [OF False] by (simp add: card_gt_0_iff)
  then show ?thesis using mst_tree_length [of es] by arith
qed

lemma mst_tree_subset: "set (mst_tree es) \<subseteq> set es"
  by (simp add: mst_tree_def mst_loop_subset)

lemma mst_tree_covers:
  assumes "(a, b) \<in> set es" "a \<noteq> b"
  shows "a \<in> nodes (mst_tree es) \<and> b \<in> nodes (mst_tree es)"
proof -
  have "fst (mst_loop mst_init es) a = fst (mst_loop mst_init es) b"
    using mst_loop_links [of es] assms(1) by auto
  from mst_loop_nodes [OF this assms(2)] show ?thesis by (simp add: mst_tree_def)
qed

lemma links_append: "links (xs @ ys) = links xs \<union> links ys"
  by (auto simp: links_def)

lemma links_single: "links [(a, b)] = {(a, b), (b, a)}"
  by (auto simp: links_def)

lemma links_mono: "set t \<subseteq> set es \<Longrightarrow> (links t)\<^sup>* \<subseteq> (links es)\<^sup>*"
  by (rule rtrancl_mono) (auto simp: links_def)

lemma via_new_edge:
  assumes "(x, y) \<in> (insert (a, b) (insert (b, a) R))\<^sup>*"
  shows "(x, y) \<in> R\<^sup>* \<or> ((x, a) \<in> R\<^sup>* \<and> (b, y) \<in> R\<^sup>*) \<or> ((x, b) \<in> R\<^sup>* \<and> (a, y) \<in> R\<^sup>*)"
  using assms
proof (induction rule: rtrancl_induct)
  case base
  then show ?case by simp
next
  case (step y z)
  from step.hyps(2) consider "(y, z) \<in> R" | "y = a" "z = b" | "y = b" "z = a" by auto
  then show ?case
  proof cases
    case 1
    then show ?thesis using step.IH by (meson rtrancl.rtrancl_into_rtrancl)
  next
    case 2
    then show ?thesis using step.IH by blast
  next
    case 3
    then show ?thesis using step.IH by blast
  qed
qed

lemma add_edge_spans:
  assumes "\<And>u v. rep u = rep v \<Longrightarrow> (u, v) \<in> (links tree)\<^sup>*"
    and "fst (add_edge (rep, tree) (a, b)) x = fst (add_edge (rep, tree) (a, b)) y"
  shows "(x, y) \<in> (links (snd (add_edge (rep, tree) (a, b))))\<^sup>*"
proof (cases "rep a = rep b")
  case True
  then show ?thesis using assms by (simp add: add_edge_keep)
next
  case False
  let ?L = "links (tree @ [(a, b)])"
  have old: "rep u = rep v \<Longrightarrow> (u, v) \<in> ?L\<^sup>*" for u v
    using assms(1) [of u v] links_mono [of tree "tree @ [(a, b)]"] by auto
  have ab: "(a, b) \<in> ?L\<^sup>*" and ba: "(b, a) \<in> ?L\<^sup>*"
    by (auto simp: links_snoc)
  from assms(2) False
  have eq: "(if rep x = rep b then rep a else rep x) = (if rep y = rep b then rep a else rep y)"
    by (simp add: add_edge_join)
  consider "rep x = rep b" "rep y = rep b" | "rep x = rep b" "rep y = rep a"
    | "rep x = rep a" "rep y = rep b" | "rep x = rep y"
    using eq by (auto split: if_splits)
  then have "(x, y) \<in> ?L\<^sup>*"
  proof cases
    case 1
    then show ?thesis using old by simp
  next
    case 2
    have "(x, b) \<in> ?L\<^sup>*" using 2 old by simp
    moreover have "(a, y) \<in> ?L\<^sup>*" using 2 old by simp
    ultimately show ?thesis using ba by (meson rtrancl_trans)
  next
    case 3
    have "(x, a) \<in> ?L\<^sup>*" using 3 old by simp
    moreover have "(b, y) \<in> ?L\<^sup>*" using 3 old by simp
    ultimately show ?thesis using ab by (meson rtrancl_trans)
  next
    case 4
    then show ?thesis using old by simp
  qed
  then show ?thesis using False by (simp add: add_edge_join)
qed

lemma mst_loop_spans:
  "fst (mst_loop mst_init es) x = fst (mst_loop mst_init es) y \<Longrightarrow>
   (x, y) \<in> (links (snd (mst_loop mst_init es)))\<^sup>*"
proof (induction es arbitrary: x y rule: rev_induct)
  case Nil
  then show ?case by (simp add: mst_init_def)
next
  case (snoc e es)
  obtain a b where e: "e = (a, b)" by (cases e)
  obtain rep tree where s: "mst_loop mst_init es = (rep, tree)" by (cases "mst_loop mst_init es")
  have ih: "(u, v) \<in> (links tree)\<^sup>*" if "rep u = rep v" for u v
    using snoc.IH [of u v] that s by simp
  from snoc.prems have eq: "fst (add_edge (rep, tree) (a, b)) x = fst (add_edge (rep, tree) (a, b)) y"
    by (simp only: mst_loop_snoc s e)
  have "(x, y) \<in> (links (snd (add_edge (rep, tree) (a, b))))\<^sup>*"
  proof (rule add_edge_spans)
    show "\<And>u v. rep u = rep v \<Longrightarrow> (u, v) \<in> (links tree)\<^sup>*" by (rule ih)
    show "fst (add_edge (rep, tree) (a, b)) x = fst (add_edge (rep, tree) (a, b)) y" by (rule eq)
  qed
  then show ?case by (simp only: mst_loop_snoc s e)
qed

lemma mst_tree_spans: "spans (mst_tree es) es"
  unfolding spans_def
proof
  show "(links (mst_tree es))\<^sup>* \<subseteq> (links es)\<^sup>*"
    by (rule links_mono) (rule mst_tree_subset)
  show "(links es)\<^sup>* \<subseteq> (links (mst_tree es))\<^sup>*"
  proof
    fix p assume p: "p \<in> (links es)\<^sup>*"
    obtain x y where xy: "p = (x, y)" by (cases p)
    with p have "fst (mst_loop mst_init es) x = fst (mst_loop mst_init es) y"
      by (simp add: links_rep)
    then have "(x, y) \<in> (links (snd (mst_loop mst_init es)))\<^sup>*" by (rule mst_loop_spans)
    then show "p \<in> (links (mst_tree es))\<^sup>*" by (simp add: xy mst_tree_def)
  qed
qed

lemma forest_snoc:
  assumes "forest tree" "(a, b) \<notin> (links tree)\<^sup>*"
  shows "forest (tree @ [(a, b)])"
  unfolding forest_def
proof (intro allI impI)
  fix xs e ys
  assume dec: "tree @ [(a, b)] = xs @ e # ys"
  show "(fst e, snd e) \<notin> (links (xs @ ys))\<^sup>*"
  proof (cases ys rule: rev_cases)
    case Nil
    with dec have "xs = tree" "e = (a, b)" by simp_all
    then show ?thesis using assms(2) Nil by simp
  next
    case (snoc ys' l)
    with dec have t: "tree = xs @ e # ys'" and l: "l = (a, b)" by simp_all
    let ?R = "links (xs @ ys')"
    have old: "(fst e, snd e) \<notin> ?R\<^sup>*"
      using assms(1) t unfolding forest_def by blast
    have sub: "?R\<^sup>* \<subseteq> (links tree)\<^sup>*"
      by (rule links_mono) (auto simp: t)
    have sym: "(u, v) \<in> (links tree)\<^sup>* \<Longrightarrow> (v, u) \<in> (links tree)\<^sup>*" for u v
      by (rule links_rtrancl_sym)
    have edge: "(fst e, snd e) \<in> (links tree)\<^sup>*" "(snd e, fst e) \<in> (links tree)\<^sup>*"
      by (auto simp: t links_def)
    have new: "links (xs @ ys) = insert (a, b) (insert (b, a) ?R)"
      by (auto simp: snoc l links_def)
    show ?thesis
    proof
      assume "(fst e, snd e) \<in> (links (xs @ ys))\<^sup>*"
      then have "(fst e, snd e) \<in> (insert (a, b) (insert (b, a) ?R))\<^sup>*" by (simp only: new)
      from via_new_edge [OF this] old
      consider "(fst e, a) \<in> ?R\<^sup>*" "(b, snd e) \<in> ?R\<^sup>*" | "(fst e, b) \<in> ?R\<^sup>*" "(a, snd e) \<in> ?R\<^sup>*"
        by blast
      then have "(a, b) \<in> (links tree)\<^sup>*"
      proof cases
        case 1
        then have "(a, fst e) \<in> (links tree)\<^sup>*" "(snd e, b) \<in> (links tree)\<^sup>*"
          using sub sym by blast+
        with edge(1) show ?thesis by (meson rtrancl_trans)
      next
        case 2
        then have "(a, snd e) \<in> (links tree)\<^sup>*" "(fst e, b) \<in> (links tree)\<^sup>*"
          using sub by blast+
        with edge(2) show ?thesis by (meson rtrancl_trans)
      qed
      with assms(2) show False by simp
    qed
  qed
qed

lemma mst_loop_forest: "forest (snd (mst_loop mst_init es))"
proof (induction es rule: rev_induct)
  case Nil
  then show ?case by (simp add: mst_init_def forest_def)
next
  case (snoc e es)
  obtain a b where e: "e = (a, b)" by (cases e)
  obtain rep tree where s: "mst_loop mst_init es = (rep, tree)" by (cases "mst_loop mst_init es")
  have f: "forest tree" using snoc.IH s by simp
  have sub: "set tree \<subseteq> set es" using mst_loop_subset [of es] s by simp
  show ?case
  proof (cases "rep a = rep b")
    case True
    then show ?thesis using f by (simp add: mst_loop_snoc s e add_edge_keep)
  next
    case False
    have "(a, b) \<notin> (links tree)\<^sup>*"
    proof
      assume "(a, b) \<in> (links tree)\<^sup>*"
      then have "(a, b) \<in> (links es)\<^sup>*" using links_mono [OF sub] by blast
      then have "rep a = rep b" using links_rep [of a b es] s by simp
      with False show False by simp
    qed
    from forest_snoc [OF f this] False show ?thesis
      by (simp add: mst_loop_snoc s e add_edge_join)
  qed
qed

lemma mst_tree_forest: "forest (mst_tree es)"
  by (simp add: mst_tree_def mst_loop_forest)

lemma forest_no_loop: "forest t \<Longrightarrow> e \<in> set t \<Longrightarrow> fst e \<noteq> snd e"
proof
  assume f: "forest t" and e: "e \<in> set t" and eq: "fst e = snd e"
  from e obtain xs ys where "t = xs @ e # ys" by (meson split_list)
  with f have "(fst e, snd e) \<notin> (links (xs @ ys))\<^sup>*" unfolding forest_def by blast
  with eq show False by simp
qed

lemma mst_tree_nodes: "nodes (mst_tree es) = nodes (filter (\<lambda>e. fst e \<noteq> snd e) es)"
proof
  show "nodes (mst_tree es) \<subseteq> nodes (filter (\<lambda>e. fst e \<noteq> snd e) es)"
  proof
    fix a assume "a \<in> nodes (mst_tree es)"
    then obtain e where e: "e \<in> set (mst_tree es)" "a = fst e \<or> a = snd e"
      by (auto simp: nodes_def)
    then have "e \<in> set es" "fst e \<noteq> snd e"
      using mst_tree_subset [of es] forest_no_loop [OF mst_tree_forest, of e es] by auto
    with e(2) show "a \<in> nodes (filter (\<lambda>e. fst e \<noteq> snd e) es)"
      by (auto simp: nodes_def)
  qed
  show "nodes (filter (\<lambda>e. fst e \<noteq> snd e) es) \<subseteq> nodes (mst_tree es)"
  proof
    fix a assume "a \<in> nodes (filter (\<lambda>e. fst e \<noteq> snd e) es)"
    then obtain c d where cd: "(c, d) \<in> set es" "c \<noteq> d" "a = c \<or> a = d"
      by (auto simp: nodes_def)
    from mst_tree_covers [OF cd(1,2)] cd(3) show "a \<in> nodes (mst_tree es)" by auto
  qed
qed

section \<open>Properties of the correction workflow\<close>

lemma step_calls_append: "step_calls (xs @ ys) = step_calls xs @ step_calls ys"
  by (induction xs rule: step_calls.induct) simp_all

lemma stableD: "stable obs m \<Longrightarrow> obs (snd (m w)) = obs w"
  unfolding stable_def by (erule spec)

lemma stableI: "(\<And>w. obs (snd (m w)) = obs w) \<Longrightarrow> stable obs m"
  unfolding stable_def by (rule allI)

lemma stable_return: "stable obs (return a)"
  by (rule stableI) (simp add: return_def)

lemma stable_raise: "stable obs (raise err)"
  by (rule stableI) (simp add: raise_def)

lemma stable_bind:
  assumes "stable obs m" "\<And>a. stable obs (f a)"
  shows "stable obs (bind m f)"
proof (rule stableI)
  fix w
  obtain r w' where mw: "m w = (r, w')" by (cases "m w") auto
  have m: "obs w' = obs w"
    using stableD [OF assms(1), of w] mw by simp
  show "obs (snd (bind m f w)) = obs w"
  proof (cases r)
    case (Inl err)
    then show ?thesis using mw m by (simp add: bind_def)
  next
    case (Inr a)
    have "obs (snd (f a w')) = obs w'"
      by (rule stableD [OF assms(2)])
    then show ?thesis using mw Inr m by (simp add: bind_def)
  qed
qed

lemma stable_view_fst: "stable view m \<Longrightarrow> stable declared_steps m"
  unfolding stable_def view_def by simp

lemma stable_view_snd: "stable view m \<Longrightarrow> stable logged_steps m"
  unfolding stable_def view_def by simp

lemma view_modify:
  "(\<And>s. correct (params (g s)) = correct (params s)) \<Longrightarrow> stable view (modify g)"
  by (rule stableI) (simp add: modify_def view_def declared_steps_def logged_steps_def)

lemma view_reader: "step_calls [c] = [] \<Longrightarrow> stable view (reader c f)"
  by (rule stableI)
     (simp add: reader_def view_def declared_steps_def logged_steps_def step_calls_append)

lemma logged_ext: "step_calls [c] = [] \<Longrightarrow> stable logged_steps (ext c f)"
  by (rule stableI) (simp add: ext_def logged_steps_def step_calls_append split: prod.splits)

lemma declared_ext:
  "(\<And>s. correct (params (snd (f s))) = correct (params s)) \<Longrightarrow> stable declared_steps (ext c f)"
  by (rule stableI) (simp add: ext_def declared_steps_def split: prod.splits, metis snd_conv)

lemma logged_black_box: "stable logged_steps (black_box f)"
  by (rule stableI) (simp add: black_box_def logged_steps_def split: prod.splits sum.splits)

lemma view_prep_partition: "stable view (prep_partition e ds d)"
proof (rule stableI)
  fix w
  show "view (snd (prep_partition e ds d w)) = view w"
  proof (induction ds arbitrary: d w)
    case Nil
    then show ?case by simp
  next
    case (Cons a ds)
    have r: "view (snd (reader (PrepIfg (sampled_path a)) (prep_ifg e (sampled_path a)) w)) = view w"
      by (rule stableD [OF view_reader]) simp
    show ?case
    proof (cases "prep_ifg e (sampled_path a) (fst w)")
      case (Inl err)
      then show ?thesis using r by (simp add: reader_def)
    next
      case (Inr i)
      then show ?thesis using r Cons.IH by (simp add: reader_def)
    qed
  qed
qed

lemma view_gather_partitions: "stable view (gather_partitions e ps)"
proof (rule stableI)
  fix w
  show "view (snd (gather_partitions e ps w)) = view w"
  proof (induction ps arbitrary: w)
    case Nil
    then show ?case by simp
  next
    case (Cons p ps)
    obtain r w' where p: "prep_partition e p [] w = (r, w')"
      by (cases "prep_partition e p [] w") auto
    have w': "view w' = view w"
      using stableD [OF view_prep_partition, of e p "[]" w] p by simp
    show ?case
    proof (cases r)
      case (Inl err)
      then show ?thesis using p w' by simp
    next
      case (Inr d)
      obtain r2 w2 where g: "gather_partitions e ps w' = (r2, w2)"
        by (cases "gather_partitions e ps w'") auto
      have "view w2 = view w'" using Cons.IH [of w'] g by simp
      then show ?thesis using p w' Inr g by (cases r2) simp_all
    qed
  qed
qed

lemma view_merge_partitions: "stable view (merge_partitions e ps)"
proof (rule stableI)
  fix w
  obtain r w' where g: "gather_partitions e ps w = (r, w')"
    by (cases "gather_partitions e ps w") auto
  have "view w' = view w"
    using stableD [OF view_gather_partitions, of e ps w] g by simp
  then show "view (snd (merge_partitions e ps w)) = view w"
    using g by (simp add: merge_partitions_def split: sum.splits)
qed

lemma view_gather_ifgs_dict: "stable view (gather_ifgs_dict e)"
  by (rule stableI) (simp add: gather_ifgs_dict_def stableD [OF view_merge_partitions])

lemma view_save: "stable view (save_ifgs_dict_with_headers_and_epochs e dest d ps)"
  unfolding save_ifgs_dict_with_headers_and_epochs_def
  by (auto split: list.splits sum.splits prod.splits simp: ensure_tmpdir_def
           intro!: stable_bind view_modify view_reader stable_raise stable_return)

lemma view_create_ifg_dict: "stable view (create_ifg_dict e)"
proof (rule stableI)
  fix w :: world
  have "stable view (bind (gather_ifgs_dict e) (\<lambda>ifgs_dict.
         bind (save_ifgs_dict_with_headers_and_epochs e (interferogram_files (params (fst w))) ifgs_dict
                 (array_split (mpi_size e) 0 (interferogram_files (params (fst w))))) (\<lambda>ifgs_dict'.
         bind (modify (\<lambda>s. s\<lparr>params := (params s)\<lparr>preread_ifgs := Some ifgs_dict'\<rparr>\<rparr>)) (\<lambda>_.
         return ifgs_dict'))))"
    by (intro stable_bind view_gather_ifgs_dict view_save view_modify stable_return) simp
  from stableD [OF this, of w]
  show "view (snd (create_ifg_dict e w)) = view w"
    by (simp add: create_ifg_dict_def Let_def)
qed

lemma view_update_params_with_tiles: "stable view (update_params_with_tiles e)"
proof (rule stableI)
  fix w :: world
  show "view (snd (update_params_with_tiles e w)) = view w"
  proof (cases "interferogram_files (params (fst w))")
    case Nil
    then show ?thesis by (simp add: update_params_with_tiles_def raise_def)
  next
    case (Cons m ms)
    have "stable view (bind (reader (GetTiles (sampled_path m))
                  (get_tiles e (sampled_path m) (rows (params (fst w))) (cols (params (fst w))))) (\<lambda>ts.
          modify (\<lambda>s. s\<lparr>params := (params s)\<lparr>tiles := Some ts\<rparr>\<rparr>)))"
      by (intro stable_bind view_reader view_modify) simp_all
    from stableD [OF this, of w] show ?thesis
      using Cons by (simp add: update_params_with_tiles_def)
  qed
qed

lemma logged_house_keeping: "stable logged_steps (house_keeping e)"
  unfolding house_keeping_def
  by (auto intro!: stable_bind logged_ext
        stable_view_snd [OF view_update_params_with_tiles]
        stable_view_snd [OF view_create_ifg_dict]
        stable_view_snd [OF view_modify])

lemma declared_house_keeping:
  assumes "\<And>s. correct (params (snd (ref_pixel_calc_wrapper e s))) = correct (params s)"
  shows "stable declared_steps (house_keeping e)"
  unfolding house_keeping_def
  by (auto intro!: stable_bind declared_ext assms
        stable_view_fst [OF view_update_params_with_tiles]
        stable_view_fst [OF view_create_ifg_dict]
        stable_view_fst [OF view_modify])

lemma view_write_filtered_list: "stable view (write_filtered_list e)"
  by (rule stableI)
     (simp add: write_filtered_list_def Let_def modify_def raise_def view_def declared_steps_def
        logged_steps_def)

lemma logged_return_params: "stable logged_steps (\<lambda>w'. return (Some (params (fst w'))) w')"
  by (rule stableI) (simp add: return_def)

lemma logged_closure: "stable logged_steps (update_params_with_closure_checked_ifg_list e)"
proof (rule stableI)
  fix w :: world
  show "logged_steps (snd (update_params_with_closure_checked_ifg_list e w)) = logged_steps w"
  proof (cases "phase_closure (params (fst w))")
    case False
    then show ?thesis by (simp add: update_params_with_closure_checked_ifg_list_def return_def)
  next
    case True
    have "stable logged_steps (bind (ext FilterToClosureChecked (filter_to_closure_checked_ifgs e))
          (\<lambda>(ifg_files, ifgs_breach_count, num_occurences_each_ifg).
             case ifg_files of
               None \<Rightarrow> raise (SystemExit zero_loops_message)
             | Some files \<Rightarrow>
                 bind (modify (\<lambda>s. s\<lparr>params := (params s)\<lparr>interferogram_files :=
                         filter_to_closure_checked_multiple_paths files
                           (interferogram_files (params s))\<rparr>\<rparr>)) (\<lambda>_.
                 bind (write_filtered_list e) (\<lambda>_.
                 bind (ext DetectPixWithUnwrappingErrors
                         (detect_pix_with_unwrapping_errors e ifgs_breach_count
                            num_occurences_each_ifg)) (\<lambda>_.
                 bind (create_ifg_dict e) (\<lambda>_.
                 (\<lambda>w'. return (Some (params (fst w'))) w')))))))"
      by (auto intro!: stable_bind logged_ext stable_raise logged_return_params
                 stable_view_snd [OF view_create_ifg_dict] stable_view_snd [OF view_modify]
                 stable_view_snd [OF view_write_filtered_list]
               split: option.splits prod.splits)
    from stableD [OF this, of w] show ?thesis
      using True by (simp add: update_params_with_closure_checked_ifg_list_def)
  qed
qed

lemma logged_discard: "stable logged_steps m \<Longrightarrow> stable logged_steps (discard m)"
  unfolding discard_def by (intro stable_bind stable_return)

lemma map_fst_correct_steps: "map fst (correct_steps e) = step_names"
  by (simp add: correct_steps_def step_names_def)

lemma registry_logged: "map_of (correct_steps e) step = Some f \<Longrightarrow> stable logged_steps f"
  by (auto simp: correct_steps_def logged_black_box logged_discard logged_closure split: if_splits)

lemma registry_defined: "step \<in> set step_names \<Longrightarrow> \<exists>f. map_of (correct_steps e) step = Some f"
  using map_fst_correct_steps [of e] by (metis map_of_eq_None_iff not_None_eq list.set_map)

lemma run_steps_logged:
  assumes "set steps \<subseteq> set step_names"
  shows "\<exists>k \<le> length steps.
           logged_steps (snd (run_steps e steps w)) = logged_steps w @ take k steps \<and>
           (fst (run_steps e steps w) = Inr () \<longrightarrow> k = length steps)"
  using assms
proof (induction steps arbitrary: w)
  case Nil
  then show ?case by simp
next
  case (Cons step rest)
  from Cons.prems obtain f where f: "map_of (correct_steps e) step = Some f"
    using registry_defined [of step e] by auto
  obtain r w' where fw: "f (record_call (Step step) w) = (r, w')"
    by (cases "f (record_call (Step step) w)") auto
  have "logged_steps w' = logged_steps (record_call (Step step) w)"
    using stableD [OF registry_logged [OF f], of "record_call (Step step) w"] fw by simp
  then have w': "logged_steps w' = logged_steps w @ [step]"
    by (simp add: logged_steps_def record_call_def step_calls_append)
  show ?case
  proof (cases r)
    case (Inl err)
    have "logged_steps (snd (run_steps e (step # rest) w)) = logged_steps w @ take 1 (step # rest)"
      using f fw Inl w' by simp
    moreover have "fst (run_steps e (step # rest) w) \<noteq> Inr ()"
      using f fw Inl by simp
    ultimately show ?thesis
      by (intro exI [of _ 1]) simp
  next
    case (Inr u)
    from Cons.prems have "set rest \<subseteq> set step_names" by simp
    from Cons.IH [OF this, of w'] obtain k where k: "k \<le> length rest"
      "logged_steps (snd (run_steps e rest w')) = logged_steps w' @ take k rest"
      "fst (run_steps e rest w') = Inr () \<longrightarrow> k = length rest" by blast
    have eq: "run_steps e (step # rest) w = run_steps e rest w'"
      using f fw Inr by simp
    have "logged_steps (snd (run_steps e (step # rest) w)) = logged_steps w @ take (Suc k) (step # rest)"
      using k(2) w' by (simp only: eq) simp
    moreover have "fst (run_steps e (step # rest) w) = Inr () \<longrightarrow> Suc k = length (step # rest)"
      using k(3) by (simp only: eq) simp
    moreover have "Suc k \<le> length (step # rest)" using k(1) by simp
    ultimately show ?thesis by blast
  qed
qed

lemma validate_loop_ok: "set steps \<subseteq> set step_names \<Longrightarrow> validate_loop e steps = Inr ()"
  by (induction steps) (simp_all add: map_fst_correct_steps)

lemma validate_loop_bad:
  "\<not> set steps \<subseteq> set step_names \<Longrightarrow>
   \<exists>step. step \<in> set steps \<and> step \<notin> set step_names \<and> validate_loop e steps = Inl (ConfigException step)"
  by (induction steps) (auto simp: map_fst_correct_steps)

lemma correct_ifgs_step_order_gen:
  assumes reg: "set (declared_steps w) \<subseteq> set step_names"
    and keep: "\<And>s. correct (params (snd (ref_pixel_calc_wrapper e s))) = correct (params s)"
  shows "prefix (drop (length (logged_steps w)) (logged_steps (snd (correct_ifgs e w)))) (declared_steps w) \<and>
         (fst (correct_ifgs e w) = Inr () \<longrightarrow>
            logged_steps (snd (correct_ifgs e w)) = logged_steps w @ declared_steps w)"
proof -
  have v: "validate_correct_steps e w = (Inr (), w)"
    using reg by (simp add: validate_correct_steps_def validate_loop_ok declared_steps_def)
  obtain r w1 where h: "house_keeping e w = (r, w1)" by (cases "house_keeping e w") auto
  have l1: "logged_steps w1 = logged_steps w"
    using stableD [OF logged_house_keeping, of e w] h by simp
  have d1: "declared_steps w1 = declared_steps w"
    using stableD [OF declared_house_keeping, of e w] keep h by simp
  show ?thesis
  proof (cases r)
    case (Inl err)
    then have "correct_ifgs e w = (Inl err, w1)"
      using v h by (simp add: correct_ifgs_def bind_def)
    then show ?thesis using l1 by simp
  next
    case (Inr u)
    then have c: "correct_ifgs e w = run_steps e (declared_steps w) w1"
      using v h d1 by (simp add: correct_ifgs_def bind_def declared_steps_def)
    from run_steps_logged [OF reg, of e w1] obtain k where
      k: "logged_steps (snd (run_steps e (declared_steps w) w1)) = logged_steps w1 @ take k (declared_steps w)"
         "fst (run_steps e (declared_steps w) w1) = Inr () \<longrightarrow> k = length (declared_steps w)"
      by blast
    show ?thesis using k l1 by (simp add: c take_is_prefix)
  qed
qed

lemma run_steps_append:
  "run_steps e pre w0 = (Inr (), w) \<Longrightarrow> run_steps e (pre @ rest) w0 = run_steps e rest w"
proof (induction pre arbitrary: w0)
  case Nil
  then show ?case by simp
next
  case (Cons step pre)
  show ?case
  proof (cases "map_of (correct_steps e) step")
    case None
    then show ?thesis using Cons.prems by simp
  next
    case (Some f)
    obtain r w' where fw: "f (record_call (Step step) w0) = (r, w')"
      by (cases "f (record_call (Step step) w0)") auto
    show ?thesis
    proof (cases r)
      case (Inl err)
      then show ?thesis using Cons.prems Some fw by simp
    next
      case (Inr u)
      then have "run_steps e pre w' = (Inr (), w)" using Cons.prems Some fw by simp
      from Cons.IH [OF this] show ?thesis using Some fw Inr by simp
    qed
  qed
qed

lemma closure_step_lookup:
  "map_of (correct_steps e) ''phase_closure'' = Some (discard (update_params_with_closure_checked_ifg_list e))"
  by (simp add: correct_steps_def)

lemma filter_loop_filter:
  "filter_loop ifg_files xs acc = acc @ filter (\<lambda>m. tmp_sampled_path m \<in> set ifg_files) xs"
  by (induction xs arbitrary: acc) simp_all

lemma declared_black_box:
  "(\<And>s. correct (params (snd (f s))) = correct (params s)) \<Longrightarrow> stable declared_steps (black_box f)"
  by (rule stableI)
     (simp add: black_box_def declared_steps_def split: prod.splits sum.splits, metis snd_conv)

lemma declared_return_params: "stable declared_steps (\<lambda>w'. return (Some (params (fst w'))) w')"
  by (rule stableI) (simp add: return_def)

lemma declared_closure:
  assumes "keeps_step_list e"
  shows "stable declared_steps (update_params_with_closure_checked_ifg_list e)"
proof (rule stableI)
  fix w :: world
  have f: "\<And>s. correct (params (snd (filter_to_closure_checked_ifgs e s))) = correct (params s)"
    and d: "\<And>b c s. correct (params (snd (detect_pix_with_unwrapping_errors e b c s))) = correct (params s)"
    using assms unfolding keeps_step_list_def by blast+
  show "declared_steps (snd (update_params_with_closure_checked_ifg_list e w)) = declared_steps w"
  proof (cases "phase_closure (params (fst w))")
    case False
    then show ?thesis by (simp add: update_params_with_closure_checked_ifg_list_def return_def)
  next
    case True
    have "stable declared_steps (bind (ext FilterToClosureChecked (filter_to_closure_checked_ifgs e))
          (\<lambda>(ifg_files, ifgs_breach_count, num_occurences_each_ifg).
             case ifg_files of
               None \<Rightarrow> raise (SystemExit zero_loops_message)
             | Some files \<Rightarrow>
                 bind (modify (\<lambda>s. s\<lparr>params := (params s)\<lparr>interferogram_files :=
                         filter_to_closure_checked_multiple_paths files
                           (interferogram_files (params s))\<rparr>\<rparr>)) (\<lambda>_.
                 bind (write_filtered_list e) (\<lambda>_.
                 bind (ext DetectPixWithUnwrappingErrors
                         (detect_pix_with_unwrapping_errors e ifgs_breach_count
                            num_occurences_each_ifg)) (\<lambda>_.
                 bind (create_ifg_dict e) (\<lambda>_.
                 (\<lambda>w'. return (Some (params (fst w'))) w')))))))"
      by (auto intro!: stable_bind declared_ext stable_raise declared_return_params f d
                 stable_view_fst [OF view_create_ifg_dict] stable_view_fst [OF view_modify]
                 stable_view_fst [OF view_write_filtered_list]
               split: option.splits prod.splits)
    from stableD [OF this, of w] show ?thesis
      using True by (simp add: update_params_with_closure_checked_ifg_list_def)
  qed
qed

lemma declared_discard: "stable declared_steps m \<Longrightarrow> stable declared_steps (discard m)"
  unfolding discard_def by (intro stable_bind stable_return)

lemma registry_declared:
  assumes "keeps_step_list e" "map_of (correct_steps e) step = Some f"
  shows "stable declared_steps f"
proof -
  have k: "\<And>s. correct (params (snd (orb_fit_calc_wrapper e s))) = correct (params s)"
    "\<And>s. correct (params (snd (ref_phase_est_wrapper e s))) = correct (params s)"
    "\<And>s. correct (params (snd (dem_error_calc_wrapper e s))) = correct (params s)"
    "\<And>s. correct (params (snd (mst_calc_wrapper e s))) = correct (params s)"
    "\<And>s. correct (params (snd (wrap_spatio_temporal_filter e s))) = correct (params s)"
    "\<And>s. correct (params (snd (maxvar_vcm_calc_wrapper e s))) = correct (params s)"
    using assms(1) unfolding keeps_step_list_def by blast+
  show ?thesis
    using assms(2)
    by (auto simp: correct_steps_def declared_black_box k declared_discard
          declared_closure [OF assms(1)] split: if_splits)
qed

lemma run_steps_declared:
  assumes "keeps_step_list e"
  shows "declared_steps (snd (run_steps e steps w)) = declared_steps w"
proof (induction steps arbitrary: w)
  case Nil
  then show ?case by simp
next
  case (Cons step rest)
  show ?case
  proof (cases "map_of (correct_steps e) step")
    case None
    then show ?thesis by simp
  next
    case (Some f)
    obtain r w' where fw: "f (record_call (Step step) w) = (r, w')"
      by (cases "f (record_call (Step step) w)") auto
    have "declared_steps w' = declared_steps (record_call (Step step) w)"
      using stableD [OF registry_declared [OF assms Some], of "record_call (Step step) w"] fw by simp
    then have w': "declared_steps w' = declared_steps w"
      by (simp add: declared_steps_def record_call_def)
    show ?thesis
    proof (cases r)
      case (Inl err)
      then show ?thesis using Some fw w' by simp
    next
      case (Inr u)
      then show ?thesis using Some fw w' Cons.IH [of w'] by simp
    qed
  qed
qed

lemma invoke_black_box:
  "n \<noteq> ''phase_closure'' \<Longrightarrow>
   invoke e n w = black_box (external e n) (record_call (Step n) w)"
  by (simp add: invoke_def black_box_def record_call_def split: prod.splits sum.splits)

lemma invoke_closure:
  "invoke e ''phase_closure'' w
     = discard (update_params_with_closure_checked_ifg_list e) (record_call (Step ''phase_closure'') w)"
  by (simp add: invoke_def discard_def bind_def return_def record_call_def
        split: prod.splits sum.splits)

lemma registry_external:
  "n \<in> set step_names \<Longrightarrow> n \<noteq> ''phase_closure'' \<Longrightarrow>
   map_of (correct_steps e) n = Some (black_box (external e n))"
  by (auto simp: step_names_def correct_steps_def external_def)

lemma registry_invoke:
  assumes "step \<in> set step_names"
  shows "\<exists>f. map_of (correct_steps e) step = Some f \<and> f (record_call (Step step) w) = invoke e step w"
proof (cases "step = ''phase_closure''")
  case True
  then show ?thesis by (simp add: closure_step_lookup invoke_closure)
next
  case False
  then show ?thesis using assms by (simp add: registry_external invoke_black_box)
qed

lemma run_steps_in_declared_order:
  "set steps \<subseteq> set step_names \<Longrightarrow> run_steps e steps w = in_declared_order e steps w"
proof (induction steps arbitrary: w)
  case Nil
  then show ?case by simp
next
  case (Cons step rest)
  from Cons.prems have "step \<in> set step_names" by simp
  from registry_invoke [OF this, of e w] obtain f where
    f: "map_of (correct_steps e) step = Some f"
    and i: "f (record_call (Step step) w) = invoke e step w"
    by blast
  obtain r w' where iw: "invoke e step w = (r, w')"
    by (cases "invoke e step w") auto
  from Cons.prems have rest: "set rest \<subseteq> set step_names" by simp
  show ?case
  proof (cases r)
    case (Inl err)
    then show ?thesis using f i iw by simp
  next
    case (Inr u)
    then show ?thesis using f i iw Cons.IH [OF rest, of w'] by simp
  qed
qed

section \<open>The claims about the correction workflow\<close>

text \<open>
  C4.  Let every requested step name be registered and let no collaborator change
  \<^verbatim>\<open>params['correct']\<close>.  Then \<open>correct_ifgs\<close>, after its house keeping, does exactly
  what the declared order says: it applies to the shared state, one after another and in
  the order of the list, the collaborator that the registry maps each name to, and stops
  at a step that raises.  The steps it logs are a prefix of the declared list, and the
  whole list, in order, when the run completes; the list itself is the same at the end.
  The order in which the registry declares the steps plays no part.
\<close>

theorem correct_ifgs_step_order:
  assumes "set (correct (params s)) \<subseteq> set step_names"
    and "keeps_step_list e"
  shows "correct_ifgs e (s, [])
           = (case house_keeping e (s, []) of
                (Inl err, w) \<Rightarrow> (Inl err, w)
              | (Inr _, w) \<Rightarrow> in_declared_order e (correct (params s)) w) \<and>
         prefix (step_calls (snd (snd (correct_ifgs e (s, []))))) (correct (params s)) \<and>
         (fst (correct_ifgs e (s, [])) = Inr () \<longrightarrow>
            step_calls (snd (snd (correct_ifgs e (s, [])))) = correct (params s)) \<and>
         correct (params (fst (snd (correct_ifgs e (s, []))))) = correct (params s)"
proof -
  have keep: "\<And>s'. correct (params (snd (ref_pixel_calc_wrapper e s'))) = correct (params s')"
    using assms(2) unfolding keeps_step_list_def by blast
  have reg: "set (declared_steps (s, [])) \<subseteq> set step_names"
    using assms(1) by (simp add: declared_steps_def)
  have v: "validate_correct_steps e (s, []) = (Inr (), (s, []))"
    using assms(1) by (simp add: validate_correct_steps_def validate_loop_ok)
  obtain r w1 where h: "house_keeping e (s, []) = (r, w1)"
    by (cases "house_keeping e (s, [])") auto
  have d1: "correct (params (fst w1)) = correct (params s)"
    using stableD [OF declared_house_keeping, of e "(s, [])"] keep h
    by (simp add: declared_steps_def)
  have eq: "correct_ifgs e (s, [])
           = (case house_keeping e (s, []) of
                (Inl err, w) \<Rightarrow> (Inl err, w)
              | (Inr _, w) \<Rightarrow> in_declared_order e (correct (params s)) w)"
    using v h d1 assms(1)
    by (cases r) (simp_all add: correct_ifgs_def bind_def run_steps_in_declared_order)
  have last: "correct (params (fst (snd (correct_ifgs e (s, []))))) = correct (params s)"
  proof (cases r)
    case (Inl err)
    then show ?thesis using v h d1 by (simp add: correct_ifgs_def bind_def)
  next
    case (Inr u)
    then have "correct_ifgs e (s, []) = run_steps e (correct (params s)) w1"
      using v h d1 by (simp add: correct_ifgs_def bind_def)
    then show ?thesis
      using run_steps_declared [OF assms(2), of "correct (params s)" w1] d1
      by (simp add: declared_steps_def)
  qed
  from correct_ifgs_step_order_gen [OF reg keep]
  show ?thesis using eq last by (simp add: declared_steps_def logged_steps_def)
qed

lemmas stub_defs =
  stub_state_def stub_env_def stub_paths_def stub_ifg_def step_names_def
  correct_ifgs_def house_keeping_def validate_correct_steps_def correct_steps_def
  update_params_with_tiles_def create_ifg_dict_def gather_ifgs_dict_def merge_partitions_def
  partitions_def array_split_def join_dicts_def save_ifgs_dict_with_headers_and_epochs_def
  ensure_tmpdir_def with_headers_def derived_keys_def pop_def make_preread_def
  update_params_with_closure_checked_ifg_list_def filter_to_closure_checked_multiple_paths_def
  write_filtered_list_def dirname_def discard_def
  bind_def return_def raise_def reader_def ext_def modify_def record_call_def black_box_def

theorem correct_ifgs_step_order_witness:
  "set (correct (params (stub_state [''mst'', ''orbfit''] False))) \<subseteq> set step_names \<and>
   keeps_step_list recording_env \<and>
   fst (correct_ifgs recording_env (stub_state [''mst'', ''orbfit''] False, [])) = Inr () \<and>
   step_calls (snd (snd (correct_ifgs recording_env (stub_state [''mst'', ''orbfit''] False, []))))
     = [''mst'', ''orbfit''] \<and>
   text_files (fst (snd (correct_ifgs recording_env (stub_state [''mst'', ''orbfit''] False, []))))
     ''calls.log'' = Some [''mst'', ''orbfit'']"
proof -
  let ?s = "stub_state [''mst'', ''orbfit''] False"
  have reg: "set (correct (params ?s)) \<subseteq> set step_names"
    by (simp add: stub_state_def step_names_def)
  have keep: "keeps_step_list recording_env"
    by (simp add: keeps_step_list_def recording_env_def stub_env_def note_call_def)
  have hk: "fst (house_keeping recording_env (?s, [])) = Inr ()"
    and j0: "text_files (fst (snd (house_keeping recording_env (?s, [])))) ''calls.log'' = None"
    by (simp_all add: stub_defs recording_env_def)
  obtain w where h: "house_keeping recording_env (?s, []) = (Inr (), w)"
    using hk by (cases "house_keeping recording_env (?s, [])") auto
  have jw: "text_files (fst w) ''calls.log'' = None" using j0 h by simp
  have run: "in_declared_order recording_env [''mst'', ''orbfit''] w
          = (Inr (), (fst w\<lparr>text_files := (text_files (fst w))(''calls.log'' \<mapsto> [''mst'', ''orbfit''])\<rparr>,
                      snd w @ [Step ''mst'', Step ''orbfit'']))"
    using jw by (simp add: invoke_def external_def recording_env_def note_call_def)
  have c: "correct (params ?s) = [''mst'', ''orbfit'']" by (simp add: stub_state_def)
  note th = correct_ifgs_step_order [OF reg keep]
  have eq: "correct_ifgs recording_env (?s, []) = in_declared_order recording_env [''mst'', ''orbfit''] w"
    using th [THEN conjunct1] by (simp only: h c prod.case sum.case)
  have all: "fst (correct_ifgs recording_env (?s, [])) = Inr () \<longrightarrow>
            step_calls (snd (snd (correct_ifgs recording_env (?s, [])))) = [''mst'', ''orbfit'']"
    using th [THEN conjunct2, THEN conjunct2, THEN conjunct1] by (simp only: c)
  have res: "correct_ifgs recording_env (?s, [])
          = (Inr (), (fst w\<lparr>text_files := (text_files (fst w))(''calls.log'' \<mapsto> [''mst'', ''orbfit''])\<rparr>,
                      snd w @ [Step ''mst'', Step ''orbfit'']))"
    by (simp only: eq run)
  have ok: "fst (correct_ifgs recording_env (?s, [])) = Inr ()" by (simp only: res fst_conv)
  from all ok have steps: "step_calls (snd (snd (correct_ifgs recording_env (?s, [])))) = [''mst'', ''orbfit'']"
    by (rule mp)
  have journal: "text_files (fst (snd (correct_ifgs recording_env (?s, [])))) ''calls.log''
          = Some [''mst'', ''orbfit'']"
    by (simp add: res)
  show ?thesis by (intro conjI reg keep ok steps journal)
qed

text \<open>
  C5.  When the requested step list holds a name outside the registry of seven steps,
  \<open>correct_ifgs\<close> raises \<open>ConfigException\<close> for such a name and leaves the world as it
  found it: no tiling, no metadata collection, no reference pixel computation and no
  step has run, and nothing was logged.
\<close>

theorem unknown_step_rejected:
  assumes "\<not> set (correct (params (fst w))) \<subseteq> set step_names"
  shows "map fst (correct_steps e) = step_names \<and> length step_names = 7 \<and>
         (\<exists>step. step \<in> set (correct (params (fst w))) \<and> step \<notin> set step_names \<and>
            correct_ifgs e w = (Inl (ConfigException step), w))"
proof -
  from validate_loop_bad [OF assms, of e] obtain step where
    step: "step \<in> set (correct (params (fst w)))" "step \<notin> set step_names"
      "validate_loop e (correct (params (fst w))) = Inl (ConfigException step)" by blast
  have "correct_ifgs e w = (Inl (ConfigException step), w)"
    using step(3) by (simp add: correct_ifgs_def bind_def validate_correct_steps_def)
  with step(1,2) show ?thesis
    by (auto simp: map_fst_correct_steps step_names_def)
qed

theorem unknown_step_rejected_witness:
  "\<not> set (correct (params (stub_state [''orbfit'', ''bogus''] False))) \<subseteq> set step_names \<and>
   correct_ifgs (stub_env 1 None) (stub_state [''orbfit'', ''bogus''] False, [])
     = (Inl (ConfigException ''bogus''), (stub_state [''orbfit'', ''bogus''] False, []))"
proof -
  have bad: "\<not> set (correct (params (fst (stub_state [''orbfit'', ''bogus''] False, [])))) \<subseteq> set step_names"
    by (simp add: stub_state_def step_names_def)
  from unknown_step_rejected [OF bad, of "stub_env 1 None"] obtain step where
    "step \<in> set (correct (params (stub_state [''orbfit'', ''bogus''] False)))" "step \<notin> set step_names"
    "correct_ifgs (stub_env 1 None) (stub_state [''orbfit'', ''bogus''] False, [])
       = (Inl (ConfigException step), (stub_state [''orbfit'', ''bogus''] False, []))"
    by auto
  moreover from this(1,2) have "step = ''bogus''"
    by (auto simp: stub_state_def step_names_def)
  ultimately show ?thesis using bad by simp
qed

text \<open>
  C6.  When phase closure is switched on and the closure check returns no retained set
  (zero loops), the phase closure step raises \<open>SystemExit\<close> with the diagnostic message
  right after the check.  The loop of steps stops there, wherever the step stands in the
  list, so \<open>correct_ifgs\<close> ends with that exception after a successful house keeping, and
  the exit status of the run is not zero.
\<close>

theorem zero_loops_fatal:
  assumes "phase_closure (params (fst w))"
    and "filter_to_closure_checked_ifgs e (fst w) = (Inr (None, breach, occ), s')"
    and "run_steps e pre w0 = (Inr (), w)"
    and "set (correct (params (fst wi))) \<subseteq> set step_names"
    and "house_keeping e wi = (Inr (), w0)"
    and "correct (params (fst w0)) = pre @ ''phase_closure'' # rest"
  shows "update_params_with_closure_checked_ifg_list e w
           = (Inl (SystemExit zero_loops_message), (s', snd w @ [FilterToClosureChecked])) \<and>
         run_steps e (pre @ ''phase_closure'' # rest) w0
           = (Inl (SystemExit zero_loops_message),
              (s', snd w @ [Step ''phase_closure'', FilterToClosureChecked])) \<and>
         correct_ifgs e wi
           = (Inl (SystemExit zero_loops_message),
              (s', snd w @ [Step ''phase_closure'', FilterToClosureChecked])) \<and>
         exit_status (fst (correct_ifgs e wi)) \<noteq> 0 \<and> zero_loops_message \<noteq> []"
proof -
  have step: "update_params_with_closure_checked_ifg_list e v
                = (Inl (SystemExit zero_loops_message), (s', snd v @ [FilterToClosureChecked]))"
    if "fst v = fst w" for v
    using assms(1,2) that
    by (simp add: update_params_with_closure_checked_ifg_list_def bind_def ext_def raise_def)
  have "run_steps e (''phase_closure'' # rest) w
          = (Inl (SystemExit zero_loops_message),
             (s', snd w @ [Step ''phase_closure'', FilterToClosureChecked]))"
    using step [of "record_call (Step ''phase_closure'') w"]
    by (simp add: closure_step_lookup discard_def bind_def record_call_def)
  then have loop: "run_steps e (pre @ ''phase_closure'' # rest) w0
          = (Inl (SystemExit zero_loops_message),
             (s', snd w @ [Step ''phase_closure'', FilterToClosureChecked]))"
    by (simp only: run_steps_append [OF assms(3)])
  have "validate_correct_steps e wi = (Inr (), wi)"
    using assms(4) by (simp add: validate_correct_steps_def validate_loop_ok)
  then have "correct_ifgs e wi = run_steps e (correct (params (fst w0))) w0"
    using assms(5) by (simp add: correct_ifgs_def bind_def)
  then have run: "correct_ifgs e wi
          = (Inl (SystemExit zero_loops_message),
             (s', snd w @ [Step ''phase_closure'', FilterToClosureChecked]))"
    using loop assms(6) by simp
  have "zero_loops_message \<noteq> []" by (simp add: zero_loops_message_def)
  then show ?thesis using step [of w] loop run by simp
qed

theorem zero_loops_fatal_witness:
  "phase_closure (params (stub_state [''orbfit'', ''phase_closure'', ''mst''] True)) \<and>
   fst (correct_ifgs (stub_env 1 None) (stub_state [''orbfit'', ''phase_closure'', ''mst''] True, []))
     = Inl (SystemExit zero_loops_message) \<and>
   snd (snd (correct_ifgs (stub_env 1 None) (stub_state [''orbfit'', ''phase_closure'', ''mst''] True, [])))
     = [GetTiles ''s/a'', PrepIfg ''s/a'', PrepIfg ''s/b'', GeotiffHeaderInfo ''t/a'', GetEpochs,
        RefPixelCalc, Step ''orbfit'', Step ''phase_closure'', FilterToClosureChecked]"
proof -
  define e where "e = stub_env 1 None"
  define wi :: world where "wi = (stub_state [''orbfit'', ''phase_closure'', ''mst''] True, [])"
  define w0 where "w0 = snd (house_keeping e wi)"
  define w where "w = snd (run_steps e [''orbfit''] w0)"
  have w0: "house_keeping e wi = (Inr (), w0)"
    unfolding w0_def e_def wi_def by (simp add: stub_defs)
  have log0: "snd w0 = [GetTiles ''s/a'', PrepIfg ''s/a'', PrepIfg ''s/b'', GeotiffHeaderInfo ''t/a'',
      GetEpochs, RefPixelCalc]"
    unfolding w0_def e_def wi_def by (simp add: stub_defs)
  have p0: "correct (params (fst w0)) = [''orbfit''] @ ''phase_closure'' # [''mst'']"
    and c0: "phase_closure (params (fst w0))"
    unfolding w0_def e_def wi_def by (simp_all add: stub_defs)
  have w: "run_steps e [''orbfit''] w0 = (Inr (), w)" and fw: "fst w = fst w0"
    and logw: "snd w = snd w0 @ [Step ''orbfit'']"
    unfolding w_def e_def by (simp_all add: correct_steps_def black_box_def record_call_def stub_env_def split: prod.splits)
  have a1: "phase_closure (params (fst w))" using c0 fw by simp
  have a2: "filter_to_closure_checked_ifgs e (fst w) = (Inr (None, [], []), fst w)"
    unfolding e_def by (simp add: stub_env_def)
  have a4: "set (correct (params (fst wi))) \<subseteq> set step_names"
    unfolding wi_def by (simp add: stub_state_def step_names_def)
  from zero_loops_fatal [OF a1 a2 w a4 w0 p0]
  have "correct_ifgs e wi = (Inl (SystemExit zero_loops_message),
          (fst w, snd w @ [Step ''phase_closure'', FilterToClosureChecked]))" by simp
  then show ?thesis
    using logw log0 unfolding e_def wi_def by (simp add: stub_state_def)
qed

text \<open>
  C7.  The phase closure filter returns a sublist of its input, so the filtered set is a
  subset of the input set, and filtering its own output again with the same retained
  paths changes nothing.
\<close>

theorem closure_filter_subset_idempotent:
  "set (filter_to_closure_checked_multiple_paths ifg_files multi_paths) \<subseteq> set multi_paths \<and>
   subseq (filter_to_closure_checked_multiple_paths ifg_files multi_paths) multi_paths \<and>
   filter_to_closure_checked_multiple_paths ifg_files
     (filter_to_closure_checked_multiple_paths ifg_files multi_paths)
     = filter_to_closure_checked_multiple_paths ifg_files multi_paths"
  by (simp add: filter_to_closure_checked_multiple_paths_def filter_loop_filter)

text \<open>
  C10.  When the phase closure flag of the configuration is false, the phase closure step
  returns \<^verbatim>\<open>None\<close> at once and the world is exactly as before: the closure check is not
  called, the interferogram list, the files and the metadata are untouched.  In the loop
  of steps the step is logged and the rest of the list runs on the unchanged state.
\<close>

theorem phase_closure_disabled_noop:
  assumes "\<not> phase_closure (params (fst w))"
  shows "update_params_with_closure_checked_ifg_list e w = (Inr None, w) \<and>
         run_steps e (''phase_closure'' # rest) w
           = run_steps e rest (fst w, snd w @ [Step ''phase_closure''])"
proof -
  have "update_params_with_closure_checked_ifg_list e v = (Inr None, v)" if "fst v = fst w" for v
    using assms that by (simp add: update_params_with_closure_checked_ifg_list_def return_def)
  from this [of w] this [of "record_call (Step ''phase_closure'') w"] show ?thesis
    by (simp add: closure_step_lookup discard_def bind_def return_def record_call_def)
qed

theorem phase_closure_disabled_noop_witness:
  "\<not> phase_closure (params (stub_state [''phase_closure''] False)) \<and>
   update_params_with_closure_checked_ifg_list (stub_env 1 (Some []))
       (stub_state [''phase_closure''] False, [])
     = (Inr None, (stub_state [''phase_closure''] False, [])) \<and>
   run_steps (stub_env 1 (Some [])) [''phase_closure''] (stub_state [''phase_closure''] False, [])
     = (Inr (), (stub_state [''phase_closure''] False, [Step ''phase_closure'']))"
proof -
  have off: "\<not> phase_closure (params (fst (stub_state [''phase_closure''] False, [])))"
    by (simp add: stub_state_def)
  from phase_closure_disabled_noop [OF off, of "stub_env 1 (Some [])" "[]"] off
  show ?thesis by simp
qed

subsection \<open>Merging the metadata\<close>

lemma update_fresh: "k \<notin> fst ` set al \<Longrightarrow> AList.update k v al = al @ [(k, v)]"
  by (induction al) auto

lemma fst_entry: "fst (entry e s d) = tmp_sampled_path d"
  by (simp add: entry_def)

lemma keys_canonical: "map fst (canonical e s ds) = map tmp_sampled_path ds"
  by (simp add: canonical_def fst_entry cong: map_cong)

lemma prep_partition_ok:
  assumes "\<forall>d \<in> set ds. \<not> isl (prep_ifg e (sampled_path d) (fst w))"
    and "distinct (map fst acc @ map tmp_sampled_path ds)"
  shows "prep_partition e ds acc w
           = (Inr (acc @ canonical e (fst w) ds), (fst w, snd w @ map (\<lambda>d. PrepIfg (sampled_path d)) ds))"
  using assms
proof (induction ds arbitrary: acc w)
  case Nil
  then show ?case by (simp add: canonical_def)
next
  case (Cons d ds)
  from Cons.prems(1) obtain i where i: "prep_ifg e (sampled_path d) (fst w) = Inr i"
    by (cases "prep_ifg e (sampled_path d) (fst w)") auto
  let ?acc = "acc @ [entry e (fst w) d]"
  let ?w = "(fst w, snd w @ [PrepIfg (sampled_path d)])"
  have fresh: "tmp_sampled_path d \<notin> fst ` set acc" using Cons.prems(2) by auto
  have upd: "AList.update (tmp_sampled_path d) (PrereadIfg (make_preread d i)) acc = ?acc"
    using update_fresh [OF fresh] i by (simp add: entry_def)
  have step: "prep_partition e (d # ds) acc w = prep_partition e ds ?acc ?w"
    using i upd by (simp add: reader_def)
  have "prep_partition e ds ?acc ?w
          = (Inr (?acc @ canonical e (fst ?w) ds), (fst ?w, snd ?w @ map (\<lambda>d. PrepIfg (sampled_path d)) ds))"
  proof (rule Cons.IH)
    show "\<forall>d \<in> set ds. \<not> isl (prep_ifg e (sampled_path d) (fst ?w))"
      using Cons.prems(1) by simp
    show "distinct (map fst ?acc @ map tmp_sampled_path ds)"
      using Cons.prems(2) by (auto simp: fst_entry)
  qed
  then show ?case using step by (simp add: canonical_def)
qed

lemma gather_partitions_ok:
  assumes "\<forall>d \<in> set (concat ps). \<not> isl (prep_ifg e (sampled_path d) (fst w))"
    and "\<forall>p \<in> set ps. distinct (map tmp_sampled_path p)"
  shows "gather_partitions e ps w
           = (Inr (map (canonical e (fst w)) ps),
              (fst w, snd w @ map (\<lambda>d. PrepIfg (sampled_path d)) (concat ps)))"
  using assms
proof (induction ps arbitrary: w)
  case Nil
  then show ?case by simp
next
  case (Cons p ps)
  let ?w = "(fst w, snd w @ map (\<lambda>d. PrepIfg (sampled_path d)) p)"
  have p: "prep_partition e p [] w = (Inr (canonical e (fst w) p), ?w)"
    using prep_partition_ok [of p e w "[]"] Cons.prems by simp
  have "gather_partitions e ps ?w
          = (Inr (map (canonical e (fst ?w)) ps),
             (fst ?w, snd ?w @ map (\<lambda>d. PrepIfg (sampled_path d)) (concat ps)))"
    by (rule Cons.IH) (use Cons.prems in simp_all)
  then show ?case using p by simp
qed

lemma join_pair_ok:
  "distinct (map fst acc @ map fst d) \<Longrightarrow> join_pair acc d = Inr (acc @ d)"
proof (induction d arbitrary: acc)
  case Nil
  then show ?case by simp
next
  case (Cons kv d)
  obtain k v where kv: "kv = (k, v)" by (cases kv)
  have fresh: "k \<notin> fst ` set acc" using Cons.prems kv by auto
  then have none: "map_of acc k = None" by (simp add: map_of_eq_None_iff)
  have "join_pair (acc @ [(k, v)]) d = Inr ((acc @ [(k, v)]) @ d)"
    by (rule Cons.IH) (use Cons.prems kv in auto)
  then show ?case using none kv update_fresh [OF fresh] by simp
qed

lemma join_onto_ok:
  "distinct (map fst acc @ map fst (concat ds)) \<Longrightarrow> join_onto acc ds = Inr (acc @ concat ds)"
proof (induction ds arbitrary: acc)
  case Nil
  then show ?case by simp
next
  case (Cons d ds)
  have d: "join_pair acc d = Inr (acc @ d)"
    by (rule join_pair_ok) (use Cons.prems in auto)
  have "join_onto (acc @ d) ds = Inr ((acc @ d) @ concat ds)"
    by (rule Cons.IH) (use Cons.prems in auto)
  then show ?case using d by simp
qed

lemma canonical_eq: "canonical e s = map (entry e s)"
  by (rule ext) (simp add: canonical_def)

lemma canonical_concat: "concat (map (canonical e s) ps) = canonical e s (concat ps)"
  by (simp add: canonical_eq map_concat)

lemma canonical_mpi_size: "canonical (e\<lparr>mpi_size := n\<rparr>) s ds = canonical e s ds"
  by (simp add: canonical_def entry_def)

lemma merge_partitions_ok:
  assumes "\<forall>d \<in> set (concat ps). \<not> isl (prep_ifg e (sampled_path d) (fst w))"
    and "distinct (map tmp_sampled_path (concat ps))"
  shows "merge_partitions e ps w
           = (Inr (canonical e (fst w) (concat ps)),
              (fst w, snd w @ map (\<lambda>d. PrepIfg (sampled_path d)) (concat ps)))"
proof -
  have each: "\<forall>p \<in> set ps. distinct (map tmp_sampled_path p)"
  proof
    fix p assume "p \<in> set ps"
    then obtain xs ys where "ps = xs @ p # ys" by (meson split_list)
    with assms(2) show "distinct (map tmp_sampled_path p)" by simp
  qed
  have "join_onto [] (map (canonical e (fst w)) ps) = Inr ([] @ concat (map (canonical e (fst w)) ps))"
    by (rule join_onto_ok) (use assms(2) in \<open>simp add: canonical_concat keys_canonical\<close>)
  then have "join_dicts (map (canonical e (fst w)) ps) = Inr (canonical e (fst w) (concat ps))"
    by (simp add: join_dicts_def canonical_concat)
  then show ?thesis
    using gather_partitions_ok [OF assms(1) each] by (simp add: merge_partitions_def)
qed

lemma concat_slices: "concat (map (\<lambda>r. take c (drop (r * c) xs)) [0..<k]) = take (k * c) xs"
proof (induction k)
  case 0
  then show ?case by simp
next
  case (Suc k)
  have "take (k * c) xs @ take c (drop (k * c) xs) = take (k * c + c) xs"
    by (simp add: take_add)
  then show ?case using Suc by (simp add: add.commute)
qed

lemma concat_partitions: "0 < n \<Longrightarrow> concat (partitions n xs) = xs"
proof -
  assume "0 < n"
  then obtain k where n: "n = Suc k" by (cases n) auto
  let ?c = "length xs div n"
  have m: "map (\<lambda>rank. array_split n rank xs) [0..<k] = map (\<lambda>r. take ?c (drop (r * ?c) xs)) [0..<k]"
    by (rule map_cong) (simp_all add: array_split_def n Let_def)
  have l: "array_split n k xs = drop (k * ?c) xs"
    by (simp add: array_split_def n Let_def)
  have "partitions n xs = map (\<lambda>rank. array_split n rank xs) [0..<k] @ [array_split n k xs]"
    by (simp add: partitions_def n)
  then have "concat (partitions n xs) = take (k * ?c) xs @ drop (k * ?c) xs"
    by (simp only: m l concat_append concat_slices) simp
  then show ?thesis by simp
qed

lemma canonical_perm:
  assumes "mset xs = mset ys" "distinct (map tmp_sampled_path ys)"
  shows "distinct (map tmp_sampled_path xs) \<and> map_of (canonical e s xs) = map_of (canonical e s ys)"
proof -
  have "mset (map tmp_sampled_path xs) = mset (map tmp_sampled_path ys)"
    using assms(1) by simp
  then have dx: "distinct (map tmp_sampled_path xs)"
    using assms(2) by (metis mset_eq_imp_distinct_iff)
  have "set (canonical e s xs) = set (canonical e s ys)"
    using assms(1) by (simp add: canonical_def) (metis mset_eq_setD)
  then have "map_of (canonical e s xs) = map_of (canonical e s ys)"
    using dx assms(2) by (intro map_of_inject_set [THEN iffD2]) (simp_all add: keys_canonical)
  with dx show ?thesis by simp
qed

text \<open>
  C8.  Let the working paths of the interferogram list be distinct and every interferogram
  openable.  Then \<open>gather_ifgs_dict\<close>, run with any positive number of workers, returns
  the same canonical mapping keyed by working path, so 1, 2 and 4 workers agree; and
  merging the partial mappings of any partitioning of the list, with any boundaries and in
  any order of the partitions, gives a mapping equal to the canonical one.
\<close>

theorem metadata_merge_partition_independent:
  assumes "interferogram_files (params (fst w)) = tifs"
    and "distinct (map tmp_sampled_path tifs)"
    and "\<forall>d \<in> set tifs. \<not> isl (prep_ifg e (sampled_path d) (fst w))"
    and "0 < n"
    and "mset (concat ps) = mset tifs"
  shows "gather_ifgs_dict (e\<lparr>mpi_size := n\<rparr>) w
           = (Inr (canonical e (fst w) tifs), (fst w, snd w @ map (\<lambda>d. PrepIfg (sampled_path d)) tifs)) \<and>
         fst (merge_partitions e ps w) = Inr (canonical e (fst w) (concat ps)) \<and>
         map_of (canonical e (fst w) (concat ps)) = map_of (canonical e (fst w) tifs) \<and>
         map fst (canonical e (fst w) tifs) = map tmp_sampled_path tifs"
proof -
  have r: "\<forall>d \<in> set (concat (partitions n tifs)). \<not> isl (prep_ifg (e\<lparr>mpi_size := n\<rparr>) (sampled_path d) (fst w))"
    using assms(3,4) by (simp add: concat_partitions)
  have d: "distinct (map tmp_sampled_path (concat (partitions n tifs)))"
    using assms(2,4) by (simp add: concat_partitions)
  have a: "gather_ifgs_dict (e\<lparr>mpi_size := n\<rparr>) w
           = (Inr (canonical e (fst w) tifs), (fst w, snd w @ map (\<lambda>d. PrepIfg (sampled_path d)) tifs))"
    using merge_partitions_ok [OF r d] assms(1,4)
    by (simp add: gather_ifgs_dict_def concat_partitions canonical_mpi_size)
  from canonical_perm [OF assms(5) assms(2)]
  have dp: "distinct (map tmp_sampled_path (concat ps))"
    and mp: "map_of (canonical e (fst w) (concat ps)) = map_of (canonical e (fst w) tifs)" by simp_all
  have "\<forall>d \<in> set (concat ps). \<not> isl (prep_ifg e (sampled_path d) (fst w))"
    using assms(3,5) by (metis mset_eq_setD)
  from merge_partitions_ok [OF this dp]
  have b: "fst (merge_partitions e ps w) = Inr (canonical e (fst w) (concat ps))" by simp
  show ?thesis using a b mp by (simp add: keys_canonical)
qed

theorem metadata_merge_partition_independent_witness:
  "distinct (map tmp_sampled_path [stub_paths ''a'', stub_paths ''b'']) \<and>
   fst (gather_ifgs_dict (stub_env 1 None) (stub_state [] False, []))
     = Inr (canonical (stub_env 1 None) (stub_state [] False) [stub_paths ''a'', stub_paths ''b'']) \<and>
   fst (gather_ifgs_dict (stub_env 2 None) (stub_state [] False, []))
     = Inr (canonical (stub_env 1 None) (stub_state [] False) [stub_paths ''a'', stub_paths ''b'']) \<and>
   fst (gather_ifgs_dict (stub_env 4 None) (stub_state [] False, []))
     = Inr (canonical (stub_env 1 None) (stub_state [] False) [stub_paths ''a'', stub_paths ''b'']) \<and>
   fst (merge_partitions (stub_env 1 None) [[stub_paths ''b''], [stub_paths ''a'']] (stub_state [] False, []))
     = Inr (canonical (stub_env 1 None) (stub_state [] False) [stub_paths ''b'', stub_paths ''a'']) \<and>
   map_of (canonical (stub_env 1 None) (stub_state [] False) [stub_paths ''b'', stub_paths ''a''])
     = map_of (canonical (stub_env 1 None) (stub_state [] False) [stub_paths ''a'', stub_paths ''b''])"
proof -
  let ?w = "(stub_state [] False, []) :: world"
  let ?tifs = "[stub_paths ''a'', stub_paths ''b'']"
  let ?ps = "[[stub_paths ''b''], [stub_paths ''a'']]"
  have t: "interferogram_files (params (fst ?w)) = ?tifs"
    by (simp add: stub_state_def)
  have d: "distinct (map tmp_sampled_path ?tifs)"
    by (simp add: stub_paths_def)
  have r: "\<forall>d \<in> set ?tifs. \<not> isl (prep_ifg (stub_env 1 None) (sampled_path d) (fst ?w))"
    by (simp add: stub_env_def stub_state_def stub_paths_def)
  have m: "mset (concat ?ps) = mset ?tifs" by simp
  have e: "(stub_env 1 None)\<lparr>mpi_size := n\<rparr> = stub_env n None" for n
    by (simp add: stub_env_def)
  note th = metadata_merge_partition_independent [OF t d r _ m]
  have "fst (gather_ifgs_dict (stub_env 1 None) ?w) = Inr (canonical (stub_env 1 None) (fst ?w) ?tifs)"
    using th [of 1, unfolded e] by simp
  moreover have "fst (gather_ifgs_dict (stub_env 2 None) ?w) = Inr (canonical (stub_env 1 None) (fst ?w) ?tifs)"
    using th [of 2, unfolded e] by simp
  moreover have "fst (gather_ifgs_dict (stub_env 4 None) ?w) = Inr (canonical (stub_env 1 None) (fst ?w) ?tifs)"
    using th [of 4, unfolded e] by simp
  moreover have "fst (merge_partitions (stub_env 1 None) ?ps ?w) = Inr (canonical (stub_env 1 None) (fst ?w) (concat ?ps))"
    using th [of 1] by simp
  moreover have "map_of (canonical (stub_env 1 None) (fst ?w) (concat ?ps)) = map_of (canonical (stub_env 1 None) (fst ?w) ?tifs)"
    using th [of 1] by simp
  ultimately show ?thesis using d by simp
qed

subsection \<open>The derived fields\<close>

lemma pop_keys_ok:
  "set ks \<subseteq> fst ` set d \<Longrightarrow> distinct ks \<Longrightarrow>
   pop_keys ks d = Inr (filter (\<lambda>kv. fst kv \<notin> set ks) d)"
proof (induction ks arbitrary: d)
  case Nil
  then show ?case by simp
next
  case (Cons k ks)
  have del: "AList.delete k d = filter (\<lambda>kv. fst kv \<noteq> k) d"
    by (induction d) auto
  have "set ks \<subseteq> fst ` set (AList.delete k d)"
  proof
    fix x assume x: "x \<in> set ks"
    with Cons.prems(1) obtain v where "(x, v) \<in> set d" by force
    moreover from x Cons.prems(2) have "x \<noteq> k" by auto
    ultimately have "(x, v) \<in> set (AList.delete k d)" by (simp add: del)
    then show "x \<in> fst ` set (AList.delete k d)" by force
  qed
  from Cons.IH [OF this] Cons.prems(2)
  have "pop_keys ks (AList.delete k d) = Inr (filter (\<lambda>kv. fst kv \<notin> set ks) (AList.delete k d))"
    by simp
  moreover have "filter (\<lambda>kv. fst kv \<notin> set ks) (AList.delete k d) = filter (\<lambda>kv. fst kv \<notin> set (k # ks)) d"
    by (simp add: del conj_commute)
  moreover have "pop k d = Inr (AList.delete k d)"
    using Cons.prems(1) by (simp add: pop_def)
  ultimately show ?case by simp
qed

lemma filter_update_removed:
  "k \<in> K \<Longrightarrow> filter (\<lambda>kv. fst kv \<notin> K) (AList.update k v al) = filter (\<lambda>kv. fst kv \<notin> K) al"
  by (induction al) auto

lemma keys_with_headers:
  "fst ` set (with_headers d el gt md wkt) = fst ` set d \<union> set derived_keys"
  by (auto simp: with_headers_def derived_keys_def dom_update)

lemma map_of_with_headers:
  "map_of (with_headers d el gt md wkt)
     = (map_of d)(''epochlist'' \<mapsto> EpochList el, ''gt'' \<mapsto> Gt gt, ''md'' \<mapsto> Md md, ''wkt'' \<mapsto> Wkt wkt)"
  by (simp add: with_headers_def update_conv')

lemma strip_with_headers:
  "filter (\<lambda>kv. fst kv \<notin> set derived_keys) (with_headers d el gt md wkt)
     = filter (\<lambda>kv. fst kv \<notin> set derived_keys) d"
proof -
  have k: "''wkt'' \<in> set derived_keys" "''md'' \<in> set derived_keys" "''gt'' \<in> set derived_keys"
    "''epochlist'' \<in> set derived_keys"
    by (simp_all add: derived_keys_def)
  show ?thesis
    by (simp only: with_headers_def filter_update_removed [OF k(1)] filter_update_removed [OF k(2)]
          filter_update_removed [OF k(3)] filter_update_removed [OF k(4)])
qed

lemma pop_with_headers:
  "pop_keys derived_keys (with_headers d el gt md wkt) = Inr (filter (\<lambda>kv. fst kv \<notin> set derived_keys) d)"
proof -
  have "pop_keys derived_keys (with_headers d el gt md wkt)
          = Inr (filter (\<lambda>kv. fst kv \<notin> set derived_keys) (with_headers d el gt md wkt))"
    by (rule pop_keys_ok) (simp_all add: keys_with_headers, simp add: derived_keys_def)
  then show ?thesis by (simp only: strip_with_headers)
qed

text \<open>
  C9.  When worker 0 has a partition and the header and epoch collaborators succeed,
  \<^verbatim>\<open>__save_ifgs_dict_with_headers_and_epochs\<close> pickles the merged mapping extended by the
  four derived entries \<^verbatim>\<open>gt\<close>, \<^verbatim>\<open>md\<close>, \<^verbatim>\<open>wkt\<close> and \<^verbatim>\<open>epochlist\<close>, and returns the
  merged mapping without any of these four keys: the keys returned are those given minus
  the four names, and when no working path is one of the four names the mapping returned
  is the mapping given, with exactly the working-path keys.
\<close>

theorem derived_fields_only_persisted:
  assumes "process_tifs = p0 # ps"
    and "get_geotiff_header_info e (tmp_sampled_path p0) (ensure_tmpdir (fst w)) = Inr (gt, md, wkt)"
    and "get_epochs e ifgs_dict = Inr epochlist"
  shows "\<exists>d s'. save_ifgs_dict_with_headers_and_epochs e dest_tifs ifgs_dict process_tifs w
             = (Inr d, (s', snd w @ [GeotiffHeaderInfo (tmp_sampled_path p0), GetEpochs])) \<and>
           pickles s' (preread_ifgs_file e (params (fst w)))
             = Some (with_headers ifgs_dict epochlist gt md wkt) \<and>
           map_of (with_headers ifgs_dict epochlist gt md wkt)
             = (map_of ifgs_dict)(''epochlist'' \<mapsto> EpochList epochlist, ''gt'' \<mapsto> Gt gt,
                  ''md'' \<mapsto> Md md, ''wkt'' \<mapsto> Wkt wkt) \<and>
           fst ` set (with_headers ifgs_dict epochlist gt md wkt)
             = fst ` set ifgs_dict \<union> {''gt'', ''md'', ''wkt'', ''epochlist''} \<and>
           d = filter (\<lambda>kv. fst kv \<notin> {''gt'', ''md'', ''wkt'', ''epochlist''}) ifgs_dict \<and>
           fst ` set d = fst ` set ifgs_dict - {''gt'', ''md'', ''wkt'', ''epochlist''} \<and>
           (fst ` set ifgs_dict \<inter> {''gt'', ''md'', ''wkt'', ''epochlist''} = {} \<longrightarrow> d = ifgs_dict)"
proof -
  let ?K = "{''gt'', ''md'', ''wkt'', ''epochlist''}"
  let ?d = "filter (\<lambda>kv. fst kv \<notin> ?K) ifgs_dict"
  let ?s1 = "ensure_tmpdir (fst w)"
  let ?s' = "?s1\<lparr>pickles := (pickles ?s1)
               (preread_ifgs_file e (params ?s1) \<mapsto> with_headers ifgs_dict epochlist gt md wkt)\<rparr>"
  have K: "set derived_keys = ?K" by (auto simp: derived_keys_def)
  have p: "params ?s1 = params (fst w)" by (simp add: ensure_tmpdir_def)
  have run: "save_ifgs_dict_with_headers_and_epochs e dest_tifs ifgs_dict process_tifs w
               = (Inr ?d, (?s', snd w @ [GeotiffHeaderInfo (tmp_sampled_path p0), GetEpochs]))"
    using assms pop_with_headers [of ifgs_dict epochlist gt md wkt]
    by (simp add: save_ifgs_dict_with_headers_and_epochs_def bind_def modify_def reader_def
          return_def K)
  have pk: "pickles ?s' (preread_ifgs_file e (params (fst w)))
              = Some (with_headers ifgs_dict epochlist gt md wkt)"
    by (simp add: p)
  have keys: "fst ` set ?d = fst ` set ifgs_dict - ?K" by auto
  have same: "fst ` set ifgs_dict \<inter> ?K = {} \<longrightarrow> ?d = ifgs_dict"
  proof
    assume "fst ` set ifgs_dict \<inter> ?K = {}"
    then have "\<forall>kv \<in> set ifgs_dict. fst kv \<notin> ?K" by blast
    then show "?d = ifgs_dict" by (simp only: filter_True)
  qed
  have hk: "fst ` set (with_headers ifgs_dict epochlist gt md wkt) = fst ` set ifgs_dict \<union> ?K"
    by (simp only: keys_with_headers K)
  note mh = map_of_with_headers [of ifgs_dict epochlist gt md wkt]
  show ?thesis
    by (intro exI [of _ ?d] exI [of _ ?s'] conjI run pk mh hk refl keys same)
qed

theorem derived_fields_only_persisted_witness:
  "fst (save_ifgs_dict_with_headers_and_epochs (stub_env 1 None) [stub_paths ''a''] stub_dict
          [stub_paths ''a''] (stub_state [] False, [])) = Inr stub_dict \<and>
   map_option (map fst)
     (pickles (fst (snd (save_ifgs_dict_with_headers_and_epochs (stub_env 1 None) [stub_paths ''a'']
        stub_dict [stub_paths ''a''] (stub_state [] False, [])))) ''tmp/preread_ifgs.pk'')
     = Some [''t/a'', ''epochlist'', ''gt'', ''md'', ''wkt'']"
proof -
  let ?w = "(stub_state [] False, []) :: world"
  have h: "get_geotiff_header_info (stub_env 1 None) (tmp_sampled_path (stub_paths ''a''))
             (ensure_tmpdir (fst ?w)) = Inr ([0, 1], [], ''wgs84'')"
    by (simp add: stub_env_def)
  have g: "get_epochs (stub_env 1 None) stub_dict = Inr [1, 2, 3]"
    by (simp add: stub_env_def)
  have f: "preread_ifgs_file (stub_env 1 None) (params (fst ?w)) = ''tmp/preread_ifgs.pk''"
    by (simp add: stub_env_def stub_state_def)
  have disj: "fst ` set stub_dict \<inter> {''gt'', ''md'', ''wkt'', ''epochlist''} = {}"
    by (simp add: stub_dict_def)
  from derived_fields_only_persisted [OF refl h g, of "[stub_paths ''a'']" "[]"]
  obtain d s' where
    r: "save_ifgs_dict_with_headers_and_epochs (stub_env 1 None) [stub_paths ''a''] stub_dict
          [stub_paths ''a''] ?w
          = (Inr d, (s', snd ?w @ [GeotiffHeaderInfo (tmp_sampled_path (stub_paths ''a'')), GetEpochs]))"
    and p: "pickles s' (preread_ifgs_file (stub_env 1 None) (params (fst ?w)))
          = Some (with_headers stub_dict [1, 2, 3] [0, 1] [] ''wgs84'')"
    and d: "fst ` set stub_dict \<inter> {''gt'', ''md'', ''wkt'', ''epochlist''} = {} \<longrightarrow> d = stub_dict"
    by (elim exE conjE)
  have "map fst (with_headers stub_dict [1, 2, 3] [0, 1] [] ''wgs84'')
          = [''t/a'', ''epochlist'', ''gt'', ''md'', ''wkt'']"
    by (simp add: with_headers_def stub_dict_def)
  moreover from d disj have "d = stub_dict" by (rule mp)
  moreover note p [unfolded f]
  ultimately show ?thesis by (simp only: r fst_conv snd_conv option.map)
qed

section \<open>The claims about the reducer\<close>

lemma mst_matrix_shape:
  assumes "ifgs \<noteq> []"
  shows "length (mst_matrix ifgs epochs) = nrows (hd ifgs) \<and>
         (\<forall>row \<in> set (mst_matrix ifgs epochs). length row = ncols (hd ifgs))"
  using assms by (cases ifgs) (auto simp: mst_matrix_def)

lemma mst_matrix_nth:
  assumes "ifgs \<noteq> []" "y < nrows (hd ifgs)" "x < ncols (hd ifgs)"
  shows "mst_matrix ifgs epochs ! y ! x = mst_pixel ifgs y x"
  using assms by (cases ifgs) (simp_all add: mst_matrix_def)

lemmas mst_eval = mst_matrix_def mst_pixel_def coherent_def stub_ifg_def edge_of_def
  mst_tree_def mst_init_def add_edge_def nodes_def default_mst_def

text \<open>
  C3.  Where every interferogram of a non-empty stack has a missing phase value, the
  result of \<open>mst_matrix\<close> is the missing-value marker, whatever the size of the grid, and
  the result matrix has the rows and columns of the rasters.
\<close>

theorem all_missing_pixel:
  assumes "ifgs \<noteq> []"
    and "\<forall>i \<in> set ifgs. nrows i = r \<and> ncols i = c"
    and "y < r" "x < c"
    and "\<forall>i \<in> set ifgs. phase_data i y x = None"
  shows "length (mst_matrix ifgs epochs) = r \<and>
         (\<forall>row \<in> set (mst_matrix ifgs epochs). length row = c) \<and>
         mst_matrix ifgs epochs ! y ! x = Missing"
proof -
  from assms(1,2) have hd: "nrows (hd ifgs) = r" "ncols (hd ifgs) = c"
    by (cases ifgs; simp)+
  have "coherent ifgs y x = []"
    using assms(5) by (simp add: coherent_def)
  then have "mst_pixel ifgs y x = Missing"
    by (simp add: mst_pixel_def)
  then show ?thesis
    using mst_matrix_shape [OF assms(1), of epochs] mst_matrix_nth [OF assms(1), of y x epochs]
      hd assms(3,4) by simp
qed

theorem all_missing_pixel_witness:
  "mst_matrix [stub_ifg 10 20 None, stub_ifg 20 30 None] [10, 20, 30] = [[Missing]]"
proof -
  let ?ifgs = "[stub_ifg 10 20 None, stub_ifg 20 30 None]"
  have a: "?ifgs \<noteq> []" by simp
  have b: "\<forall>i \<in> set ?ifgs. nrows i = 1 \<and> ncols i = 1" by (simp add: stub_ifg_def)
  have c: "\<forall>i \<in> set ?ifgs. phase_data i 0 0 = None" by (simp add: stub_ifg_def)
  from all_missing_pixel [OF a b _ _ c, of "[10, 20, 30]"]
  have "length (mst_matrix ?ifgs [10, 20, 30]) = 1"
    and "\<forall>row \<in> set (mst_matrix ?ifgs [10, 20, 30]). length row = 1"
    and "mst_matrix ?ifgs [10, 20, 30] ! 0 ! 0 = Missing" by simp_all
  then show ?thesis
    by (cases "mst_matrix ?ifgs [10, 20, 30]"; simp) (metis length_0_conv length_Suc_conv nth_Cons_0 One_nat_def)
qed

text \<open>
  C1, as amended.  At a pixel with no coherent interferogram the result of \<open>mst_matrix\<close>
  is the missing-value marker.  At a pixel with one or more coherent interferograms,
  spanning \<open>e\<close> distinct epochs, the result is a forest of coherent edges that connects
  exactly the epochs the coherent interferograms connect; it has at most \<open>e - 1\<close> edges,
  and exactly \<open>e - 1\<close> edges if and only if the coherent interferograms form a connected
  network.  A single coherent interferogram is no exception: it gives a tree, not the
  marker.
\<close>

theorem mst_matrix_edge_count:
  assumes "ifgs \<noteq> []" "y < nrows (hd ifgs)" "x < ncols (hd ifgs)"
  shows "(coherent ifgs y x = [] \<longrightarrow> mst_matrix ifgs epochs ! y ! x = Missing) \<and>
         (coherent ifgs y x \<noteq> [] \<longrightarrow>
            (\<exists>t. mst_matrix ifgs epochs ! y ! x = Tree t \<and>
                 set t \<subseteq> set (map edge_of (coherent ifgs y x)) \<and>
                 forest t \<and>
                 spans t (map edge_of (coherent ifgs y x)) \<and>
                 length t \<le> card (nodes (map edge_of (coherent ifgs y x))) - 1 \<and>
                 (length t = card (nodes (map edge_of (coherent ifgs y x))) - 1
                    \<longleftrightarrow> connected_network (map edge_of (coherent ifgs y x)))))"
proof -
  let ?es = "map edge_of (coherent ifgs y x)"
  have px: "mst_matrix ifgs epochs ! y ! x = mst_pixel ifgs y x"
    by (rule mst_matrix_nth [OF assms])
  have zero: "coherent ifgs y x = [] \<longrightarrow> mst_pixel ifgs y x = Missing"
    by (simp add: mst_pixel_def)
  have some: "coherent ifgs y x \<noteq> [] \<longrightarrow>
      mst_pixel ifgs y x = Tree (mst_tree ?es) \<and> set (mst_tree ?es) \<subseteq> set ?es \<and>
      forest (mst_tree ?es) \<and> spans (mst_tree ?es) ?es \<and>
      length (mst_tree ?es) \<le> card (nodes ?es) - 1 \<and>
      (length (mst_tree ?es) = card (nodes ?es) - 1 \<longleftrightarrow> connected_network ?es)"
  proof
    assume k: "coherent ifgs y x \<noteq> []"
    then have ne: "?es \<noteq> []" by simp
    from k have "mst_pixel ifgs y x = Tree (mst_tree ?es)"
      by (simp add: mst_pixel_def Let_def)
    then show "mst_pixel ifgs y x = Tree (mst_tree ?es) \<and> set (mst_tree ?es) \<subseteq> set ?es \<and>
      forest (mst_tree ?es) \<and> spans (mst_tree ?es) ?es \<and>
      length (mst_tree ?es) \<le> card (nodes ?es) - 1 \<and>
      (length (mst_tree ?es) = card (nodes ?es) - 1 \<longleftrightarrow> connected_network ?es)"
      using mst_tree_subset [of ?es] mst_tree_le [of ?es] mst_tree_connected_iff [OF ne]
        mst_tree_forest [of ?es] mst_tree_spans [of ?es] by blast
  qed
  show ?thesis using zero some by (simp only: px) blast
qed

theorem mst_matrix_edge_count_witness:
  "mst_matrix [stub_ifg 10 20 (Some 0), stub_ifg 20 30 (Some 0), stub_ifg 10 30 (Some 0), stub_ifg 30 40 None]
     [10, 20, 30, 40] ! 0 ! 0 = Tree [(10, 20), (20, 30)] \<and>
   card (nodes [(10, 20), (20, 30), (10, 30)]) = 3 \<and>
   connected_network [(10, 20), (20, 30), (10, 30)] \<and>
   forest [(10, 20), (20, 30)] \<and>
   spans [(10, 20), (20, 30)] [(10, 20), (20, 30), (10, 30)]"
proof -
  let ?ifgs = "[stub_ifg 10 20 (Some 0), stub_ifg 20 30 (Some 0), stub_ifg 10 30 (Some 0), stub_ifg 30 40 None]"
  have a: "?ifgs \<noteq> []" by simp
  have b: "0 < nrows (hd ?ifgs)" "0 < ncols (hd ?ifgs)" by (simp_all add: stub_ifg_def)
  have es: "map edge_of (coherent ?ifgs 0 0) = [(10, 20), (20, 30), (10, 30)]"
    by (simp add: coherent_def stub_ifg_def edge_of_def)
  have k: "coherent ?ifgs 0 0 \<noteq> []" by (simp add: coherent_def stub_ifg_def)
  have v: "mst_matrix ?ifgs [10, 20, 30, 40] ! 0 ! 0 = Tree [(10, 20), (20, 30)]"
    by (simp add: mst_eval)
  have n: "nodes [(10 :: epoch, 20 :: epoch), (20, 30), (10, 30)] = {10, 20, 30}"
    by (auto simp: nodes_def)
  have c: "card (nodes [(10 :: epoch, 20 :: epoch), (20, 30), (10, 30)]) = 3"
    by (simp add: n)
  from mst_matrix_edge_count [OF a b, of "[10, 20, 30, 40]"] k
  obtain t where t: "mst_matrix ?ifgs [10, 20, 30, 40] ! 0 ! 0 = Tree t"
    "forest t" "spans t (map edge_of (coherent ?ifgs 0 0))"
    "length t = card (nodes (map edge_of (coherent ?ifgs 0 0))) - 1
       \<longleftrightarrow> connected_network (map edge_of (coherent ?ifgs 0 0))"
    by blast
  from t(1) v have tv: "t = [(10, 20), (20, 30)]" by simp
  with t(4) c have conn: "connected_network [(10, 20), (20, 30), (10, 30)]" by (simp add: es)
  from t(2) tv have f: "forest [(10, 20), (20, 30)]" by simp
  from t(3) tv have sp: "spans [(10, 20), (20, 30)] [(10, 20), (20, 30), (10, 30)]"
    by (simp only: es)
  show ?thesis by (intro conjI v c conn f sp)
qed

text \<open>
  C1 as stated fails in two places.  With a single coherent interferogram the result is
  the tree of its one edge, of length 1 as \<^verbatim>\<open>test_partial_nan_pixel_stack\<close> asserts,
  not the missing-value marker.  Where the coherent interferograms do not form a connected
  network the count is short: two coherent interferograms over four epochs give a forest
  of two edges, not three.
\<close>

theorem mst_matrix_edge_count_counterexample:
  "length (coherent [stub_ifg 10 20 (Some 0), stub_ifg 20 30 None] 0 0) = 1 \<and>
   mst_matrix [stub_ifg 10 20 (Some 0), stub_ifg 20 30 None] [10, 20, 30] ! 0 ! 0 = Tree [(10, 20)] \<and>
   Tree [(10, 20)] \<noteq> Missing \<and>
   length (coherent [stub_ifg 10 20 (Some 0), stub_ifg 30 40 (Some 0)] 0 0) = 2 \<and>
   card (nodes (map edge_of (coherent [stub_ifg 10 20 (Some 0), stub_ifg 30 40 (Some 0)] 0 0))) = 4 \<and>
   mst_matrix [stub_ifg 10 20 (Some 0), stub_ifg 30 40 (Some 0)] [10, 20, 30, 40] ! 0 ! 0
     = Tree [(10, 20), (30, 40)] \<and>
   length [(10 :: epoch, 20 :: epoch), (30, 40)] \<noteq> 4 - 1"
  by (simp add: mst_eval)

text \<open>
  C2, as amended.  For a non-empty network of interferograms covering \<open>m\<close> epochs,
  \<open>default_mst\<close> returns a forest that connects exactly the epochs the network connects.
  Every returned edge is a (first, second) pair of the input.  Its nodes are the epochs
  that some interferogram joins to a different epoch, which are all the epochs of the
  input when every interferogram joins two different epochs.  It has at most \<open>m - 1\<close>
  edges, and exactly \<open>m - 1\<close> if and only if the network is connected.
\<close>

theorem default_mst_coverage:
  assumes "ifgs \<noteq> []"
  shows "set (default_mst ifgs) \<subseteq> set (map edge_of ifgs) \<and>
         forest (default_mst ifgs) \<and>
         spans (default_mst ifgs) (map edge_of ifgs) \<and>
         nodes (default_mst ifgs) = nodes (filter (\<lambda>e. fst e \<noteq> snd e) (map edge_of ifgs)) \<and>
         ((\<forall>i \<in> set ifgs. first i \<noteq> second i) \<longrightarrow>
            nodes (default_mst ifgs) = nodes (map edge_of ifgs)) \<and>
         length (default_mst ifgs) \<le> card (nodes (map edge_of ifgs)) - 1 \<and>
         (length (default_mst ifgs) = card (nodes (map edge_of ifgs)) - 1
            \<longleftrightarrow> connected_network (map edge_of ifgs))"
proof -
  let ?es = "map edge_of ifgs"
  have ne: "?es \<noteq> []" using assms by simp
  have cov: "(\<forall>i \<in> set ifgs. first i \<noteq> second i) \<longrightarrow> nodes (mst_tree ?es) = nodes ?es"
  proof
    assume "\<forall>i \<in> set ifgs. first i \<noteq> second i"
    then have "\<forall>e \<in> set ?es. fst e \<noteq> snd e" by (simp add: edge_of_def)
    then have "filter (\<lambda>e. fst e \<noteq> snd e) ?es = ?es" by (simp only: filter_True)
    then show "nodes (mst_tree ?es) = nodes ?es" using mst_tree_nodes [of ?es] by simp
  qed
  show ?thesis
    unfolding default_mst_def
    by (intro conjI mst_tree_subset mst_tree_forest mst_tree_spans mst_tree_nodes cov mst_tree_le
          mst_tree_connected_iff [OF ne])
qed

theorem default_mst_coverage_witness:
  "default_mst [stub_ifg 10 20 None, stub_ifg 20 30 None, stub_ifg 10 30 None] = [(10, 20), (20, 30)] \<and>
   card (nodes (map edge_of [stub_ifg 10 20 None, stub_ifg 20 30 None, stub_ifg 10 30 None])) = 3 \<and>
   connected_network (map edge_of [stub_ifg 10 20 None, stub_ifg 20 30 None, stub_ifg 10 30 None]) \<and>
   nodes (default_mst [stub_ifg 10 20 None, stub_ifg 20 30 None, stub_ifg 10 30 None]) = {10, 20, 30}"
proof -
  let ?ifgs = "[stub_ifg 10 20 None, stub_ifg 20 30 None, stub_ifg 10 30 None]"
  have a: "?ifgs \<noteq> []" by simp
  have es: "map edge_of ?ifgs = [(10, 20), (20, 30), (10, 30)]"
    by (simp add: stub_ifg_def edge_of_def)
  have n: "nodes [(10 :: epoch, 20 :: epoch), (20, 30), (10, 30)] = {10, 20, 30}"
    by (auto simp: nodes_def)
  have c: "card (nodes (map edge_of ?ifgs)) = 3"
    by (simp only: es n) simp
  have d: "\<forall>i \<in> set ?ifgs. first i \<noteq> second i" by (simp add: stub_ifg_def)
  have v: "default_mst ?ifgs = [(10, 20), (20, 30)]" by (simp add: mst_eval)
  note th = default_mst_coverage [OF a]
  have "length (default_mst ?ifgs) = card (nodes (map edge_of ?ifgs)) - 1"
    by (simp only: v c) simp
  with th have conn: "connected_network (map edge_of ?ifgs)" by blast
  from th d have "nodes (default_mst ?ifgs) = nodes (map edge_of ?ifgs)" by blast
  then have cov: "nodes (default_mst ?ifgs) = {10, 20, 30}" by (simp only: es n)
  show ?thesis by (intro conjI v c conn cov)
qed

text \<open>
  C2 as stated fails on a network that is not connected: two interferograms over four
  epochs give two edges, not three.  And an interferogram from an epoch to itself, which
  no real network holds, is never an edge, so an epoch that only such an interferogram
  mentions is not a node of the tree.
\<close>

theorem default_mst_coverage_counterexample:
  "card (nodes (map edge_of [stub_ifg 10 20 (Some 0), stub_ifg 30 40 (Some 0)])) = 4 \<and>
   default_mst [stub_ifg 10 20 (Some 0), stub_ifg 30 40 (Some 0)] = [(10, 20), (30, 40)] \<and>
   length (default_mst [stub_ifg 10 20 (Some 0), stub_ifg 30 40 (Some 0)]) \<noteq> 4 - 1 \<and>
   nodes (map edge_of [stub_ifg 10 10 (Some 0)]) = {10} \<and>
   default_mst [stub_ifg 10 10 (Some 0)] = [] \<and>
   nodes (default_mst [stub_ifg 10 10 (Some 0)]) = {}"
  by (simp add: mst_eval)

end
